theory Spec2Isabelle
  imports Complex_Main "HOL-Library.Multiset" "HOL-Library.AList" "HOL-Library.Product_Lexorder"
begin

section \<open>Data model (types.ts)\<close>

text \<open>
  Chips, ranks and bet sizes are JavaScript numbers that the engine keeps integral
  (every amount taken from outside goes through \<open>Math.floor\<close>); they are modelled as
  \<open>int\<close>, requested amounts as \<open>real\<close>. NaN and the infinities are outside the model.
  Array positions and seat numbers are \<open>nat\<close>; \<open>turnSeat\<close> is an \<open>int\<close> because the
  engine stores \<open>-1\<close> there when a hand is over.
\<close>

datatype suit = Clubs | Diamonds | Hearts | Spades

record card =
  rank :: int
  suit :: suit

datatype stage = Waiting | Preflop | Flop | Turn | River | Showdown

record player =
  player_id :: string
  name :: string
  stack :: int
  seat :: nat
  hole :: "card list option"
  inHand :: bool
  hasActedThisRound :: bool
  isAllIn :: bool
  isOwner :: bool

record winnerInfo =
  w_seat :: nat
  w_name :: string
  w_amount :: int
  category :: "nat option"
  categoryName :: string

record sidePot =
  amount :: int
  eligibleSeats :: "nat list"

section \<open>HandEvaluator.ts\<close>

text \<open>
  A JavaScript \<open>Map\<close> iterates in insertion order and \<open>set\<close> on a present key keeps
  the key's position: an association list with \<open>AList.update\<close>.
  \<open>xs.sort((a,b)=>b-a)\<close> on numbers is the descending sort.
\<close>

definition sort_desc :: "int list \<Rightarrow> int list" where
  "sort_desc xs = rev (sort xs)"

text \<open>\<open>Array.from(new Set(xs))\<close>: the distinct elements, each at its first occurrence.\<close>

definition array_from_set :: "'a list \<Rightarrow> 'a list" where
  "array_from_set xs = rev (remdups (rev xs))"

text \<open>\<open>xs[i]\<close>, which is \<open>undefined\<close> (here \<open>None\<close>) out of range.\<close>

definition js_at :: "'a list \<Rightarrow> nat \<Rightarrow> 'a option" where
  "js_at xs i = (if i < length xs then Some (xs ! i) else None)"

definition countsByRank :: "card list \<Rightarrow> (int \<times> nat) list" where
  "countsByRank cards =
     fold (\<lambda>c m. AList.update (rank c)
                   ((case map_of m (rank c) of None \<Rightarrow> 0 | Some k \<Rightarrow> k) + 1) m)
          cards []"

text \<open>
  One iteration of the loop of \<open>isStraight\<close> at index \<open>i\<close>, on the pair \<open>(run, bestHigh)\<close>.
  \<open>u[i-3]\<close> is read only when \<open>run \<ge> 5\<close>, that is after four iterations at least, so
  \<open>i - 3\<close> is never negative there.
\<close>

definition isStraight_step :: "int list \<Rightarrow> nat \<Rightarrow> nat \<times> int \<Rightarrow> nat \<times> int" where
  "isStraight_step u i st =
     (case st of (run, bestHigh) \<Rightarrow>
        if u ! i = u ! (i + 1) + 1
        then (let run' = run + 1
              in (run', if run' \<ge> 5 then max bestHigh (u ! (i - 3)) else bestHigh))
        else (1, bestHigh))"

definition isStraight :: "int list \<Rightarrow> int option" where
  "isStraight ranks =
     (let u0 = sort_desc (array_from_set ranks);
          u = (if 14 \<in> set u0 then u0 @ [1] else u0);
          bestHigh = snd (fold (isStraight_step u) [0 ..< length u - 1] (1, 0))
      in if bestHigh = 0 then None else Some bestHigh)"

text \<open>The map from suit to the cards of that suit, in the order the suits first appear.\<close>

definition suitsOf :: "card list \<Rightarrow> (suit \<times> card list) list" where
  "suitsOf cards =
     fold (\<lambda>c m. AList.update (suit c)
                   ((case map_of m (suit c) of None \<Rightarrow> [] | Some arr \<Rightarrow> arr) @ [c]) m)
          cards []"

text \<open>\<open>for (const [s, arr] of suits) if (arr.length >= 5) flushSuit = s\<close>: the last such suit.\<close>

definition flushSuitOf :: "(suit \<times> card list) list \<Rightarrow> suit option" where
  "flushSuitOf suits = fold (\<lambda>(s, arr) fs. if length arr \<ge> 5 then Some s else fs) suits None"

text \<open>
  The groups sorted by count descending, then rank descending. The ranks of \<open>byRank\<close> are
  distinct, so the comparator never returns 0 on two different entries.
\<close>

definition groupsOf :: "(int \<times> nat) list \<Rightarrow> (int \<times> nat) list" where
  "groupsOf byRank = sort_key (\<lambda>(r, c). (- int c, - r)) byRank"

text \<open>
  The result of \<open>rank7\<close>: the category and the tiebreak array. An entry of the tiebreak
  array is \<open>None\<close> where the source stores \<open>undefined\<close> (a kicker read from an empty array).
\<close>

type_synonym rankResult = "nat \<times> int option list"

definition rank7 :: "card list \<Rightarrow> rankResult" where
  "rank7 cards =
     (let byRank = countsByRank cards;
          ranksDesc = sort_desc (map fst byRank);
          suits = suitsOf cards;
          flushSuit = flushSuitOf suits;
          flushCards = (case flushSuit of None \<Rightarrow> []
                        | Some fs \<Rightarrow> (case map_of suits fs of None \<Rightarrow> [] | Some arr \<Rightarrow> arr));
          sfHigh = (case flushSuit of None \<Rightarrow> None
                    | Some fs \<Rightarrow> isStraight (sort_desc (map rank flushCards)));
          groups = groupsOf byRank;
          threes = sort_desc (map fst (filter (\<lambda>(r, c). c = 3) groups));
          pairs = sort_desc (map fst (filter (\<lambda>(r, c). c = 2) groups))
      in case sfHigh of Some h \<Rightarrow> (8, [Some h])
         | None \<Rightarrow>
           if (case groups of [] \<Rightarrow> False | g # _ \<Rightarrow> snd g = 4)
           then (let quad = fst (hd groups);
                     kickers = filter (\<lambda>r. r \<noteq> quad) ranksDesc
                 in (7, [Some quad, js_at kickers 0]))
           else if length threes \<ge> 2 \<or> (length threes \<ge> 1 \<and> length pairs \<ge> 1)
           then (let top3 = threes ! 0;
                     top2 = (if length threes \<ge> 2 then threes ! 1 else pairs ! 0)
                 in (6, [Some top3, Some top2]))
           else if flushSuit \<noteq> None
           then (5, map Some (take 5 (sort_desc (map rank flushCards))))
           else (case isStraight ranksDesc of
                   Some sHigh \<Rightarrow> (4, [Some sHigh])
                 | None \<Rightarrow>
                   if length threes \<ge> 1
                   then (let r3 = threes ! 0
                         in (3, Some r3 # map Some (take 2 (filter (\<lambda>r. r \<noteq> r3) ranksDesc))))
                   else if length pairs \<ge> 2
                   then (let p1 = pairs ! 0; p2 = pairs ! 1;
                             kick = js_at (filter (\<lambda>r. r \<noteq> p1 \<and> r \<noteq> p2) ranksDesc) 0
                         in (2, [Some (max p1 p2), Some (min p1 p2), kick]))
                   else if length pairs = 1
                   then (let p = pairs ! 0
                         in (1, Some p # map Some (take 3 (filter (\<lambda>r. r \<noteq> p) ranksDesc))))
                   else (0, map Some (take 5 ranksDesc))))"

section \<open>PokerEngine.ts: state\<close>

text \<open>
  The entries of the action log and the table message are template strings in the source;
  each template is a constructor here, with the values it interpolates. The time stamp of a
  log entry (\<open>Date.now()\<close>) is not modelled.
\<close>

datatype log_item =
    LogJoined string nat real
  | LogLeft string
  | LogPosts string int
  | LogNewHand string string int int
  | LogFlop card card card
  | LogTurn card
  | LogRiver card
  | LogWinUncontested string int
  | LogShowdown "(string \<times> int) list"
  | LogFold string
  | LogCheck string
  | LogCall string int
  | LogBet string int
  | LogRaise string int

datatype message =
    MsgEmpty
  | MsgNeedPlayers
  | MsgNewHand
  | MsgNextStreet
  | MsgWinsFolded string
  | MsgWinner string int
  | MsgWinners "string list"

text \<open>
  The fields of \<open>RoomState\<close> followed by the private fields of the class \<open>PokerEngine\<close>.
  \<open>state.actionLog\<close> is the field of \<open>RoomState\<close> (set to \<open>[]\<close> by the constructor and never
  written again); \<open>actionLog\<close> is the private log of the engine. \<open>revealSeats\<close> is a
  JavaScript \<open>Set\<close>: a duplicate-free list in insertion order.
\<close>

record engine =
  code :: string
  stage :: stage
  players :: "player list"
  dealerSeat :: nat
  smallBlind :: int
  bigBlind :: int
  currentBet :: int
  minRaise :: int
  pot :: int
  community :: "card list"
  turnSeat :: int
  deck :: "card list"
  lastAggressorSeat :: "nat option"
  message :: message
  lastWinners :: "winnerInfo list"
  state_actionLog :: "log_item list"
  pots :: "sidePot list"
  streetBets :: "int list"
  totalBets :: "int list"
  publicReveals :: "nat \<rightharpoonup> card list"
  revealSeats :: "nat list"
  actionLog :: "log_item list"

datatype error = TypeError | UndefinedCard

definition MAX_PLAYERS :: nat where
  "MAX_PLAYERS = 9"

definition LOG_LIMIT :: nat where
  "LOG_LIMIT = 200"

definition CATEGORY_NAMES :: "string list" where
  "CATEGORY_NAMES = [''High Card'', ''One Pair'', ''Two Pair'', ''Three of a Kind'',
     ''Straight'', ''Flush'', ''Full House'', ''Four of a Kind'', ''Straight Flush'']"

fun show_nat :: "nat \<Rightarrow> string" where
  "show_nat n =
     (if n < 10 then [char_of (48 + n)] else show_nat (n div 10) @ [char_of (48 + n mod 10)])"

definition catName :: "nat option \<Rightarrow> string" where
  "catName cat =
     (case cat of None \<Rightarrow> ''Uncontested''
      | Some c \<Rightarrow> (case js_at CATEGORY_NAMES c of Some nm \<Rightarrow> nm | None \<Rightarrow> ''Cat '' @ show_nat c))"

definition new_engine :: "string \<Rightarrow> engine" where
  "new_engine c =
     \<lparr>code = c, stage = Waiting, players = [], dealerSeat = 0, smallBlind = 1, bigBlind = 2,
      currentBet = 0, minRaise = 2, pot = 0, community = [], turnSeat = 0, deck = [],
      lastAggressorSeat = None, message = MsgEmpty, lastWinners = [], state_actionLog = [],
      pots = [], streetBets = [], totalBets = [], publicReveals = Map.empty, revealSeats = [],
      actionLog = []\<rparr>"

section \<open>PokerEngine.ts: helpers\<close>

text \<open>\<open>nextSeat\<close>: the first seat \<open>(from + i) % n\<close>, \<open>i = 1..n\<close>, that is in hand and not all-in.\<close>

definition nextSeat :: "engine \<Rightarrow> nat \<Rightarrow> nat" where
  "nextSeat s from =
     (let n = length (players s)
      in case find (\<lambda>st. inHand (players s ! st) \<and> \<not> isAllIn (players s ! st))
                   (map (\<lambda>i. (from + i) mod n) [1 ..< n + 1])
         of Some st \<Rightarrow> st | None \<Rightarrow> from)"

definition log_add :: "log_item \<Rightarrow> engine \<Rightarrow> engine" where
  "log_add item s =
     (let l = actionLog s @ [item]
      in s\<lparr>actionLog := (if length l > LOG_LIMIT then drop (length l - LOG_LIMIT) l else l)\<rparr>)"

definition resetReveals :: "engine \<Rightarrow> engine" where
  "resetReveals s = s\<lparr>publicReveals := Map.empty, revealSeats := []\<rparr>"

definition set_add :: "'a \<Rightarrow> 'a list \<Rightarrow> 'a list" where
  "set_add x xs = (if x \<in> set xs then xs else xs @ [x])"

text \<open>
  The ledgers: \<open>xs[i] || 0\<close> reads 0 out of range. A write beyond the end extends a
  JavaScript array and leaves holes, which every read of the engine (\<open>|| 0\<close>, \<open>map\<close>,
  \<open>some\<close>) treats as 0; the model fills them with 0.
\<close>

definition get0 :: "int list \<Rightarrow> nat \<Rightarrow> int" where
  "get0 xs i = (case js_at xs i of None \<Rightarrow> 0 | Some v \<Rightarrow> v)"

definition js_set :: "int list \<Rightarrow> nat \<Rightarrow> int \<Rightarrow> int list" where
  "js_set xs i v =
     (if i < length xs then xs[i := v] else xs @ replicate (i - length xs) 0 @ [v])"

text \<open>\<open>commitChips\<close>; \<open>players[seat]\<close> of an empty seat is \<open>undefined\<close> and reading its stack throws.\<close>

definition commitChips :: "engine \<Rightarrow> nat \<Rightarrow> int \<Rightarrow> error + (int \<times> engine)" where
  "commitChips s st amt =
     (case js_at (players s) st of
        None \<Rightarrow> Inl TypeError
      | Some p \<Rightarrow>
         (let pay = max 0 (min amt (stack p))
          in if pay \<le> 0 then Inr (0, s)
             else (let p1 = p\<lparr>stack := stack p - pay\<rparr>;
                       p2 = (if stack p1 = 0 then p1\<lparr>isAllIn := True\<rparr> else p1)
                   in Inr (pay, s\<lparr>players := (players s)[st := p2],
                                  pot := pot s + pay,
                                  streetBets := js_set (streetBets s) st (get0 (streetBets s) st + pay),
                                  totalBets := js_set (totalBets s) st (get0 (totalBets s) st + pay)\<rparr>))))"

subsection \<open>buildSidePots\<close>

text \<open>
  The inner \<open>for\<close> loop: \<open>layer\<close> starts at \<open>Infinity\<close> (\<open>None\<close>) and \<open>contributors\<close> at \<open>[]\<close>.
\<close>

definition scanLayer :: "nat \<Rightarrow> int list \<Rightarrow> int option \<times> nat list" where
  "scanLayer n remain =
     fold (\<lambda>i (layer, contributors).
             if get0 remain i > 0
             then (Some (case layer of None \<Rightarrow> remain ! i | Some l \<Rightarrow> min l (remain ! i)),
                   contributors @ [i])
             else (layer, contributors))
          [0 ..< n] (None, [])"

definition subtractLayer :: "int \<Rightarrow> nat list \<Rightarrow> int list \<Rightarrow> int list" where
  "subtractLayer layer contributors remain =
     fold (\<lambda>i r. r[i := r ! i - layer]) contributors remain"

definition inHandAt :: "player list \<Rightarrow> nat \<Rightarrow> bool" where
  "inHandAt ps i = (case js_at ps i of None \<Rightarrow> False | Some p \<Rightarrow> inHand p)"

text \<open>
  Facts about the inner loop, needed to show that the \<open>while\<close> loop of \<open>buildSidePots\<close>
  terminates: every pass takes a positive layer off at least one seat.
\<close>

lemma scanLayer_0: "scanLayer 0 remain = (None, [])"
  by (simp add: scanLayer_def)

lemma scanLayer_Suc:
  "scanLayer (Suc n) remain =
     (case scanLayer n remain of (layer, contributors) \<Rightarrow>
        if get0 remain n > 0
        then (Some (case layer of None \<Rightarrow> remain ! n | Some l \<Rightarrow> min l (remain ! n)),
              contributors @ [n])
        else (layer, contributors))"
  by (simp add: scanLayer_def)

lemma get0_pos: "0 < get0 xs i \<longleftrightarrow> i < length xs \<and> 0 < xs ! i"
  by (simp add: get0_def js_at_def)

lemma scanLayer_contributors:
  "snd (scanLayer n remain) = filter (\<lambda>i. get0 remain i > 0) [0 ..< n]"
  by (induction n) (auto simp: scanLayer_0 scanLayer_Suc split: prod.splits)

lemma scanLayer_None: "scanLayer n remain = (None, cs) \<Longrightarrow> cs = []"
  by (induction n arbitrary: cs)
     (auto simp: scanLayer_0 scanLayer_Suc split: prod.splits if_splits)

lemma scanLayer_layer:
  "scanLayer n remain = (Some l, cs) \<Longrightarrow>
     0 < l \<and> (\<forall>i \<in> set cs. l \<le> remain ! i) \<and> (\<exists>i \<in> set cs. l = remain ! i)"
proof (induction n arbitrary: l cs)
  case 0
  then show ?case by (simp add: scanLayer_0)
next
  case (Suc n)
  obtain l0 cs0 where sl: "scanLayer n remain = (l0, cs0)"
    by (cases "scanLayer n remain")
  show ?case
  proof (cases "get0 remain n > 0")
    case False
    with Suc sl show ?thesis by (simp add: scanLayer_Suc)
  next
    case True
    show ?thesis
    proof (cases l0)
      case None
      with sl have "cs0 = []" by (simp add: scanLayer_None)
      with None Suc.prems sl True show ?thesis
        by (auto simp: scanLayer_Suc get0_pos)
    next
      case (Some l1)
      with Suc.IH[of l1 cs0] sl
      have ih: "0 < l1" "\<forall>i\<in>set cs0. l1 \<le> remain ! i" "\<exists>i\<in>set cs0. l1 = remain ! i"
        by auto
      from Suc.prems sl True Some have l: "l = min l1 (remain ! n)" and cs: "cs = cs0 @ [n]"
        by (auto simp: scanLayer_Suc)
      from True have "0 < remain ! n" by (simp add: get0_pos)
      with ih l cs show ?thesis by (auto simp: min_def)
    qed
  qed
qed

lemma subtractLayer_nth:
  "distinct cs \<Longrightarrow> \<forall>i \<in> set cs. i < length r \<Longrightarrow>
     subtractLayer l cs r = map (\<lambda>i. if i \<in> set cs then r ! i - l else r ! i) [0 ..< length r]"
proof (induction cs arbitrary: r)
  case Nil
  then show ?case by (simp add: subtractLayer_def map_nth)
next
  case (Cons c cs)
  have "subtractLayer l (c # cs) r = subtractLayer l cs (r[c := r ! c - l])"
    by (simp add: subtractLayer_def)
  also have "\<dots> = map (\<lambda>i. if i \<in> set cs then (r[c := r ! c - l]) ! i - l
                              else (r[c := r ! c - l]) ! i) [0 ..< length r]"
    using Cons.prems Cons.IH[of "r[c := r ! c - l]"] by simp
  also have "\<dots> = map (\<lambda>i. if i \<in> set (c # cs) then r ! i - l else r ! i) [0 ..< length r]"
    using Cons.prems by (auto simp: nth_list_update)
  finally show ?case .
qed

definition posSum :: "int list \<Rightarrow> nat" where
  "posSum r = (\<Sum>i \<in> {0 ..< length r}. nat (max 0 (r ! i)))"

lemma posSum_decreases:
  assumes sl: "scanLayer n remain = (Some l, cs)" and ne: "cs \<noteq> []"
  shows "posSum (subtractLayer l cs remain) < posSum remain"
proof -
  have cs: "cs = filter (\<lambda>i. get0 remain i > 0) [0 ..< n]"
    using scanLayer_contributors[of n remain] sl by simp
  then have d: "distinct cs" and r: "\<forall>i \<in> set cs. i < length remain"
    by (auto simp: get0_pos)
  from scanLayer_layer[OF sl] have l: "0 < l" "\<forall>i \<in> set cs. l \<le> remain ! i"
    by auto
  have eq: "subtractLayer l cs remain =
      map (\<lambda>i. if i \<in> set cs then remain ! i - l else remain ! i) [0 ..< length remain]"
    by (rule subtractLayer_nth[OF d r])
  from ne obtain c where c: "c \<in> set cs" by (cases cs) auto
  have "(\<Sum>i = 0..<length remain. nat (max 0 (if i \<in> set cs then remain ! i - l else remain ! i)))
        < (\<Sum>i = 0..<length remain. nat (max 0 (remain ! i)))"
  proof (rule sum_strict_mono_ex1)
    show "finite {0..<length remain}" by simp
    show "\<forall>i\<in>{0..<length remain}.
            nat (max 0 (if i \<in> set cs then remain ! i - l else remain ! i)) \<le> nat (max 0 (remain ! i))"
      using l by auto
    show "\<exists>i\<in>{0..<length remain}.
            nat (max 0 (if i \<in> set cs then remain ! i - l else remain ! i)) < nat (max 0 (remain ! i))"
      using c l r by (intro bexI[of _ c]) auto
  qed
  moreover have "posSum (subtractLayer l cs remain) =
      (\<Sum>i = 0..<length remain. nat (max 0 (if i \<in> set cs then remain ! i - l else remain ! i)))"
    unfolding posSum_def eq by (rule sum.cong) simp_all
  ultimately show ?thesis
    by (simp add: posSum_def)
qed

text \<open>The \<open>while (stillHasMoney())\<close> loop; every \<open>break\<close> returns the pots built so far.\<close>

function buildSidePots_loop :: "player list \<Rightarrow> nat \<Rightarrow> int list \<Rightarrow> sidePot list" where
  "buildSidePots_loop ps n remain =
     (if \<not> (\<exists>v \<in> set remain. v > 0) then []
      else (case scanLayer n remain of
              (None, contributors) \<Rightarrow> []
            | (Some layer, contributors) \<Rightarrow>
                if contributors = [] \<or> layer \<le> 0 then []
                else (let amt = layer * int (length contributors);
                          remain' = subtractLayer layer contributors remain;
                          eligible = filter (inHandAt ps) contributors
                      in (if amt > 0 then [\<lparr>amount = amt, eligibleSeats = eligible\<rparr>] else [])
                         @ buildSidePots_loop ps n remain')))"
  by pat_completeness auto
termination
  by (relation "measure (\<lambda>(ps, n, remain). posSum remain)") (auto simp: posSum_decreases)

declare buildSidePots_loop.simps [simp del]

text \<open>\<open>remain\<close> is \<open>totalBets.map(x => Math.max(0, Math.floor(x || 0)))\<close>, on integers.\<close>

definition buildSidePots :: "engine \<Rightarrow> sidePot list" where
  "buildSidePots s =
     (let n = length (players s)
      in if n = 0 then []
         else buildSidePots_loop (players s) n (map (\<lambda>x. max 0 x) (totalBets s)))"

section \<open>PokerEngine.ts: the API\<close>

text \<open>\<open>xs.splice(i, 0, 0)\<close>: insert a 0 at position \<open>i\<close>, or at the end when \<open>i\<close> is beyond it.\<close>

definition splice_in0 :: "nat \<Rightarrow> int list \<Rightarrow> int list" where
  "splice_in0 i xs = take i xs @ [0] @ drop i xs"

definition addPlayer :: "engine \<Rightarrow> string \<Rightarrow> string \<Rightarrow> real \<Rightarrow> bool \<Rightarrow> bool \<times> engine" where
  "addPlayer s pid nm stk owner =
     (if length (players s) \<ge> MAX_PLAYERS then (False, s)
      else if \<exists>p \<in> set (players s). name p = nm then (False, s)
      else (let st = length (players s);
                p = \<lparr>player_id = pid, name = nm, stack = max 1 \<lfloor>stk\<rfloor>, seat = st,
                     hole = None, inHand = True, hasActedThisRound = False, isAllIn = False,
                     isOwner = owner\<rparr>;
                s1 = s\<lparr>players := players s @ [p],
                       streetBets := splice_in0 st (streetBets s),
                       totalBets := splice_in0 st (totalBets s)\<rparr>
            in (True, log_add (LogJoined nm (st + 1) stk) s1)))"

subsection \<open>Views\<close>

text \<open>
  An entry of the \<open>players\<close> array of a view. \<open>v_hole\<close> is the key \<open>hole\<close>, which only
  \<open>getClientView\<close> adds, and only to the entry of the requesting player.
\<close>

record viewPlayer =
  v_id :: string
  v_name :: string
  v_stack :: int
  v_seat :: nat
  v_inHand :: bool
  v_hasActedThisRound :: bool
  v_isAllIn :: bool
  v_isOwner :: bool
  holeCount :: nat
  publicHole :: "card list option"
  v_hole :: "card list option"

record roomView =
  v_code :: string
  v_stage :: stage
  v_dealerSeat :: nat
  v_smallBlind :: int
  v_bigBlind :: int
  v_currentBet :: int
  v_minRaise :: int
  v_pot :: int
  v_community :: "card list"
  v_turnSeat :: int
  v_lastAggressorSeat :: "nat option"
  v_message :: message
  v_pots :: "sidePot list"
  v_players :: "viewPlayer list"
  v_revealSeats :: "nat list"
  v_lastWinners :: "winnerInfo list"
  v_actionLog :: "log_item list"

definition getBroadcastView :: "engine \<Rightarrow> roomView" where
  "getBroadcastView s =
     \<lparr>v_code = code s, v_stage = stage s, v_dealerSeat = dealerSeat s,
      v_smallBlind = smallBlind s, v_bigBlind = bigBlind s, v_currentBet = currentBet s,
      v_minRaise = minRaise s, v_pot = pot s, v_community = community s,
      v_turnSeat = turnSeat s, v_lastAggressorSeat = lastAggressorSeat s,
      v_message = message s,
      v_pots = buildSidePots s,
      v_players = map (\<lambda>p. \<lparr>v_id = player_id p, v_name = name p, v_stack = stack p,
                              v_seat = seat p, v_inHand = inHand p,
                              v_hasActedThisRound = hasActedThisRound p,
                              v_isAllIn = isAllIn p, v_isOwner = isOwner p,
                              holeCount = (case hole p of None \<Rightarrow> 0 | Some h \<Rightarrow> length h),
                              publicHole = publicReveals s (seat p),
                              v_hole = None\<rparr>) (players s),
      v_revealSeats = revealSeats s,
      v_lastWinners = lastWinners s,
      v_actionLog = actionLog s\<rparr>"

definition getClientView :: "engine \<Rightarrow> string \<Rightarrow> roomView" where
  "getClientView s requestorId =
     (let pv = getBroadcastView s
      in case find (\<lambda>p. player_id p = requestorId) (players s) of
           None \<Rightarrow> pv
         | Some me \<Rightarrow>
            (case hole me of
               None \<Rightarrow> pv
             | Some h \<Rightarrow> pv\<lparr>v_players := map (\<lambda>p. if v_id p = requestorId
                                                    then p\<lparr>v_hole := Some h\<rparr> else p)
                                              (v_players pv)\<rparr>))"

subsection \<open>Showdown\<close>

text \<open>\<open>tiebreak[i] ?? 0\<close>, and the comparison loop that stops at the first difference.\<close>

definition tb_at :: "int option list \<Rightarrow> nat \<Rightarrow> int" where
  "tb_at tb i = (case js_at tb i of Some (Some v) \<Rightarrow> v | _ \<Rightarrow> 0)"

definition tiebreakCmp :: "int option list \<Rightarrow> int option list \<Rightarrow> int" where
  "tiebreakCmp ta tb =
     (case find (\<lambda>i. tb_at ta i \<noteq> tb_at tb i) [0 ..< max (length ta) (length tb)] of
        None \<Rightarrow> 0
      | Some i \<Rightarrow> tb_at ta i - tb_at tb i)"

text \<open>
  One iteration of \<open>for (const s of elig)\<close> on \<open>(bestSeats, bestR)\<close>. Every seat of \<open>elig\<close>
  has a rank (\<open>elig\<close> was filtered by \<open>rankBySeat.has\<close>).
\<close>

definition bestStep ::
  "(nat \<times> rankResult) list \<Rightarrow> nat \<Rightarrow> nat list \<times> rankResult option \<Rightarrow> nat list \<times> rankResult option"
where
  "bestStep rankBySeat st acc =
     (case acc of (bestSeats, bestR) \<Rightarrow>
        (case map_of rankBySeat st of
           None \<Rightarrow> acc
         | Some r \<Rightarrow>
            (case bestR of
               None \<Rightarrow> ([st], Some r)
             | Some b \<Rightarrow>
                if fst r > fst b then ([st], Some r)
                else if fst r = fst b
                then (let cmp = tiebreakCmp (snd r) (snd b)
                      in if cmp > 0 then ([st], Some r)
                         else if cmp = 0 then (bestSeats @ [st], bestR)
                         else acc)
                else acc)))"

text \<open>\<open>wonBySeat.get(s) || 0\<close>.\<close>

definition won_get :: "(nat \<times> int) list \<Rightarrow> nat \<Rightarrow> int" where
  "won_get won st = (case map_of won st of None \<Rightarrow> 0 | Some v \<Rightarrow> v)"

text \<open>The loop \<open>while (remainder > 0)\<close> over the sorted \<open>bestSeats\<close>.\<close>

function giveRemainder :: "nat list \<Rightarrow> int \<Rightarrow> nat \<Rightarrow> (nat \<times> int) list \<Rightarrow> (nat \<times> int) list" where
  "giveRemainder bestSeats remainder idx won =
     (if remainder > 0
      then (let st = bestSeats ! (idx mod length bestSeats)
            in giveRemainder bestSeats (remainder - 1) (idx + 1)
                 (AList.update st (won_get won st + 1) won))
      else won)"
  by pat_completeness auto
termination
  by (relation "measure (\<lambda>(bestSeats, remainder, idx, won). nat remainder)") auto

declare giveRemainder.simps [simp del]

text \<open>
  The split of one pot among \<open>bestSeats\<close>, which is never empty where the source divides by
  its length (the first eligible seat always enters it).
\<close>

definition splitPot :: "int \<Rightarrow> nat list \<Rightarrow> (nat \<times> int) list \<Rightarrow> (nat \<times> int) list" where
  "splitPot amt bestSeats won =
     (let share = amt div int (length bestSeats);
          remainder = amt - share * int (length bestSeats);
          won1 = fold (\<lambda>st w. AList.update st (won_get w st + share) w) bestSeats won
      in giveRemainder (sort bestSeats) remainder 0 won1)"

text \<open>The body of \<open>for (const pot of pots)\<close>.\<close>

definition payPot :: "(nat \<times> rankResult) list \<Rightarrow> sidePot \<Rightarrow> (nat \<times> int) list \<Rightarrow> (nat \<times> int) list" where
  "payPot rankBySeat sp won =
     (let elig = filter (\<lambda>st. map_of rankBySeat st \<noteq> None) (eligibleSeats sp)
      in if elig = [] then won
         else splitPot (amount sp) (fst (fold (bestStep rankBySeat) elig ([], None))) won)"

text \<open>The contenders, as positions in \<open>players\<close>.\<close>

definition contendersOf :: "player list \<Rightarrow> nat list" where
  "contendersOf ps = filter (\<lambda>i. inHand (ps ! i) \<and> hole (ps ! i) \<noteq> None) [0 ..< length ps]"

definition rankBySeatOf :: "card list \<Rightarrow> player list \<Rightarrow> nat list \<Rightarrow> (nat \<times> rankResult) list" where
  "rankBySeatOf board ps contenders =
     fold (\<lambda>i m. AList.update (seat (ps ! i))
                   (rank7 (board @ (case hole (ps ! i) of None \<Rightarrow> [] | Some h \<Rightarrow> h))) m)
          contenders []"

text \<open>
  \<open>for (const [seat, amt] of wonBySeat) players[seat].stack += amt\<close>. The seats of
  \<open>wonBySeat\<close> are positions of \<open>players\<close> (lemmas \<open>payPots_keys\<close> and \<open>buildSidePots_seats\<close>).
\<close>

definition creditStacks :: "(nat \<times> int) list \<Rightarrow> player list \<Rightarrow> player list" where
  "creditStacks won ps =
     fold (\<lambda>(st, amt) ps. ps[st := (ps ! st)\<lparr>stack := stack (ps ! st) + amt\<rparr>]) won ps"

definition winnersListOf ::
  "(nat \<times> rankResult) list \<Rightarrow> player list \<Rightarrow> (nat \<times> int) list \<Rightarrow> winnerInfo list" where
  "winnersListOf rankBySeat ps won =
     sort_key (\<lambda>w. (- w_amount w, w_seat w))
       (map (\<lambda>(st, amt).
               (let cat = (case map_of rankBySeat st of None \<Rightarrow> None | Some r \<Rightarrow> Some (fst r))
                in \<lparr>w_seat = st, w_name = name (ps ! st), w_amount = amt,
                    category = cat, categoryName = catName cat\<rparr>))
            won)"

definition resolveShowdown :: "engine \<Rightarrow> engine" where
  "resolveShowdown s =
     (let board = community s;
          contenders = contendersOf (players s);
          s0 = resetReveals s
      in if length contenders = 1
         then (let wi = hd contenders;
                   winner = players s0 ! wi;
                   amt = pot s0;
                   s1 = s0\<lparr>players := (players s0)[wi := winner\<lparr>stack := stack winner + amt\<rparr>],
                           pot := 0,
                           message := MsgWinsFolded (name winner),
                           stage := Showdown,
                           turnSeat := - 1,
                           revealSeats := set_add (seat winner) (revealSeats s0)\<rparr>;
                   s2 = (log_add (LogWinUncontested (name winner) amt) s1)
                          \<lparr>lastWinners := [\<lparr>w_seat = seat winner, w_name = name winner,
                                             w_amount = amt, category = None,
                                             categoryName = catName None\<rparr>]\<rparr>
               in s2\<lparr>pots := buildSidePots s2\<rparr>)
         else (let rankBySeat = rankBySeatOf board (players s0) contenders;
                   pots0 = buildSidePots s0;
                   wonBySeat = fold (payPot rankBySeat) pots0 [];
                   ps1 = creditStacks wonBySeat (players s0);
                   winnersList = winnersListOf rankBySeat ps1 wonBySeat;
                   reveals = fold (\<lambda>w pr. case hole (ps1 ! w_seat w) of
                                              None \<Rightarrow> pr
                                            | Some h \<Rightarrow> pr(w_seat w \<mapsto> h))
                                  winnersList (publicReveals s0);
                   rs = fold (\<lambda>i r. if seat (ps1 ! i) \<in> set (map w_seat winnersList) then r
                                     else set_add (seat (ps1 ! i)) r)
                             contenders (revealSeats s0);
                   s1 = log_add (LogShowdown (map (\<lambda>w. (w_name w, w_amount w)) winnersList))
                          (s0\<lparr>players := ps1, publicReveals := reveals, revealSeats := rs\<rparr>)
               in s1\<lparr>message := (if length winnersList = 1
                                 then MsgWinner (w_name (winnersList ! 0)) (w_amount (winnersList ! 0))
                                 else MsgWinners (map w_name winnersList)),
                      lastWinners := winnersList,
                      stage := Showdown,
                      turnSeat := - 1,
                      pot := 0,
                      pots := pots0\<rparr>))"

subsection \<open>Starting a hand\<close>

text \<open>
  \<open>deck.pop()\<close> takes the last element of the array. Dealing two cards to every player in
  hand; where the deck runs out the source stores \<open>undefined\<close> as a hole card, a value the
  type \<open>card\<close> does not have, and the model stops with \<open>UndefinedCard\<close> (\<open>makeDeck\<close> returns 52
  cards and at most 9 players are seated, so dealing needs 18 at most).
\<close>

fun dealHoles :: "player list \<Rightarrow> card list \<Rightarrow> error + (player list \<times> card list)" where
  "dealHoles [] d = Inr ([], d)"
| "dealHoles (p # ps) d =
     (if \<not> inHand p
      then (case dealHoles ps d of Inl e \<Rightarrow> Inl e | Inr (ps', d') \<Rightarrow> Inr (p # ps', d'))
      else (case rev d of
              c1 # c2 # rest \<Rightarrow>
                (case dealHoles ps (rev rest) of
                   Inl e \<Rightarrow> Inl e
                 | Inr (ps', d') \<Rightarrow> Inr (p\<lparr>hole := Some [c1, c2]\<rparr> # ps', d'))
            | _ \<Rightarrow> Inl UndefinedCard))"

definition postBlind :: "engine \<Rightarrow> nat \<Rightarrow> int \<Rightarrow> error + engine" where
  "postBlind s st amt =
     (case commitChips s st amt of
        Inl e \<Rightarrow> Inl e
      | Inr (paid, s1) \<Rightarrow> Inr (log_add (LogPosts (name (players s1 ! st)) paid) s1))"

definition nameAt :: "player list \<Rightarrow> nat \<Rightarrow> string \<Rightarrow> string" where
  "nameAt ps i dflt = (case js_at ps i of None \<Rightarrow> dflt | Some p \<Rightarrow> name p)"

text \<open>\<open>startHand\<close>; the argument \<open>newDeck\<close> is the value that \<open>makeDeck()\<close> returns.\<close>

definition startHand :: "card list \<Rightarrow> engine \<Rightarrow> error + engine" where
  "startHand newDeck s =
     (let n = length (players s)
      in if n < 2 then Inr (s\<lparr>message := MsgNeedPlayers\<rparr>)
         else
          (let s1 = resetReveals
                      (s\<lparr>deck := newDeck, community := [], pot := 0, stage := Preflop,
                         currentBet := 0, minRaise := bigBlind s,
                         players := map (\<lambda>p. p\<lparr>inHand := stack p > 0, isAllIn := False,
                                                hasActedThisRound := False, hole := None\<rparr>)
                                        (players s)\<rparr>);
               s2 = s1\<lparr>lastWinners := [], streetBets := replicate n 0,
                       totalBets := replicate n 0, pots := [],
                       dealerSeat := (dealerSeat s1 + 1) mod n\<rparr>
           in case dealHoles (players s2) (deck s2) of
                Inl e \<Rightarrow> Inl e
              | Inr (ps, d) \<Rightarrow>
                 (let s3 = s2\<lparr>players := ps, deck := d\<rparr>;
                      sbSeat = (dealerSeat s3 + 1) mod n;
                      bbSeat = (dealerSeat s3 + 2) mod n
                  in case postBlind s3 sbSeat (smallBlind s3) of
                       Inl e \<Rightarrow> Inl e
                     | Inr s4 \<Rightarrow>
                        (case postBlind s4 bbSeat (bigBlind s4) of
                           Inl e \<Rightarrow> Inl e
                         | Inr s5 \<Rightarrow>
                            (let s6 = s5\<lparr>currentBet := bigBlind s5,
                                         turnSeat := int ((dealerSeat s5 + 3) mod n),
                                         lastAggressorSeat := Some bbSeat,
                                         message := MsgNewHand\<rparr>
                             in Inr (log_add (LogNewHand (nameAt (players s6) (dealerSeat s6) ''Dealer'')
                                                         (nameAt (players s6) sbSeat ''SB'')
                                                         (smallBlind s6) (bigBlind s6))
                                             s6))))))"

subsection \<open>Betting\<close>

definition everyoneActedOrAllIn :: "engine \<Rightarrow> bool" where
  "everyoneActedOrAllIn s =
     list_all (\<lambda>p. if \<not> inHand p \<or> isAllIn p then True
                    else if \<not> hasActedThisRound p then False
                    else \<not> (get0 (streetBets s) (seat p) < currentBet s))
              (players s)"

text \<open>
  \<open>advanceStage\<close>. The log line of a new street prints the cards just popped; \<open>cardStr\<close> of an
  \<open>undefined\<close> card throws, which is what happens when the deck is too short.
\<close>

definition advanceStage :: "engine \<Rightarrow> error + engine" where
  "advanceStage s =
     (let s1 = s\<lparr>players := map (\<lambda>p. p\<lparr>hasActedThisRound := False\<rparr>) (players s),
                 currentBet := 0, minRaise := bigBlind s,
                 streetBets := replicate (length (players s)) 0\<rparr>
      in case stage s1 of
           Preflop \<Rightarrow>
             (case rev (deck s1) of
                burn # f1 # f2 # f3 # rest \<Rightarrow>
                  (let s2 = s1\<lparr>deck := rev rest, community := community s1 @ [f1, f2, f3],
                               stage := Flop\<rparr>;
                       s3 = s2\<lparr>turnSeat := int (nextSeat s2 (dealerSeat s2))\<rparr>
                   in Inr ((log_add (LogFlop f1 f2 f3) s3)\<lparr>message := MsgNextStreet\<rparr>))
              | _ \<Rightarrow> Inl TypeError)
         | Flop \<Rightarrow>
             (case rev (deck s1) of
                burn # t # rest \<Rightarrow>
                  (let s2 = s1\<lparr>deck := rev rest, community := community s1 @ [t], stage := Turn\<rparr>;
                       s3 = s2\<lparr>turnSeat := int (nextSeat s2 (dealerSeat s2))\<rparr>
                   in Inr ((log_add (LogTurn t) s3)\<lparr>message := MsgNextStreet\<rparr>))
              | _ \<Rightarrow> Inl TypeError)
         | Turn \<Rightarrow>
             (case rev (deck s1) of
                burn # r # rest \<Rightarrow>
                  (let s2 = s1\<lparr>deck := rev rest, community := community s1 @ [r], stage := River\<rparr>;
                       s3 = s2\<lparr>turnSeat := int (nextSeat s2 (dealerSeat s2))\<rparr>
                   in Inr ((log_add (LogRiver r) s3)\<lparr>message := MsgNextStreet\<rparr>))
              | _ \<Rightarrow> Inl TypeError)
         | River \<Rightarrow> Inr (resolveShowdown (s1\<lparr>stage := Showdown\<rparr>))
         | _ \<Rightarrow> Inr (s1\<lparr>message := MsgNextStreet\<rparr>))"

definition activeCount :: "engine \<Rightarrow> nat" where
  "activeCount s = length (filter inHand (players s))"

datatype action = Fold | Check | Call | Bet | Raise

text \<open>\<open>players[turnSeat]\<close>, which is \<open>undefined\<close> for \<open>-1\<close> and beyond the last seat.\<close>

definition player_at :: "player list \<Rightarrow> int \<Rightarrow> player option" where
  "player_at ps i = (if i < 0 then None else js_at ps (nat i))"

definition bettingStage :: "stage \<Rightarrow> bool" where
  "bettingStage g = (g = Preflop \<or> g = Flop \<or> g = Turn \<or> g = River)"

text \<open>A write to a field of the object \<open>players[i]\<close>.\<close>

definition upd_player :: "nat \<Rightarrow> (player \<Rightarrow> player) \<Rightarrow> engine \<Rightarrow> engine" where
  "upd_player i f s = s\<lparr>players := (players s)[i := f (players s ! i)]\<rparr>"

text \<open>
  \<open>players.forEach(p => { if (p.seat !== actor.seat && p.inHand && !p.isAllIn)
  p.hasActedThisRound = false })\<close>.
\<close>

definition reopenRound :: "nat \<Rightarrow> engine \<Rightarrow> engine" where
  "reopenRound actorSeat s =
     s\<lparr>players := map (\<lambda>p. if seat p \<noteq> actorSeat \<and> inHand p \<and> \<not> isAllIn p
                          then p\<lparr>hasActedThisRound := False\<rparr> else p)
                    (players s)\<rparr>"

text \<open>
  \<open>playerAction\<close> up to the comment \<open>Move turn / advance street\<close>: the action is refused
  (\<open>return false\<close>; \<open>Rejected\<close> carries the state as it is at that \<open>return\<close>), it ends the hand
  (the fold that leaves one player, \<open>return true\<close>), or it is applied and the turn moves on.
  \<open>actor\<close> is the object \<open>players[turnSeat]\<close>; \<open>commitChips\<close> is called with \<open>actor.seat\<close>.
\<close>

datatype applied = Rejected engine | HandOver engine | Applied engine

definition applyAction :: "engine \<Rightarrow> string \<Rightarrow> action \<Rightarrow> real option \<Rightarrow> error + applied" where
  "applyAction s pid kind amt =
     (if \<not> bettingStage (stage s) then Inr (Rejected s)
      else case player_at (players s) (turnSeat s) of
        None \<Rightarrow> Inr (Rejected s)
      | Some actor \<Rightarrow>
         if player_id actor \<noteq> pid \<or> \<not> inHand actor \<or> isAllIn actor then Inr (Rejected s)
         else
          (let ai = nat (turnSeat s);
               st = seat actor;
               contributed = get0 (streetBets s) st;
               toCall = max 0 (currentBet s - contributed);
               minRaise = bigBlind s;
               requested = \<lfloor>case amt of None \<Rightarrow> 0 | Some a \<Rightarrow> a\<rfloor>
           in case kind of
                Fold \<Rightarrow>
                 (let s1 = log_add (LogFold (name actor))
                             (upd_player ai (\<lambda>p. p\<lparr>inHand := False, hasActedThisRound := True\<rparr>) s)
                  in if activeCount s1 = 1
                     then (case find (\<lambda>i. inHand (players s1 ! i)) [0 ..< length (players s1)] of
                             None \<Rightarrow> Inl TypeError
                           | Some wi \<Rightarrow>
                              (let winner = players s1 ! wi;
                                   won = pot s1;
                                   s2 = resetReveals
                                          (s1\<lparr>players := (players s1)[wi := winner\<lparr>stack := stack winner + won\<rparr>],
                                              pot := 0,
                                              message := MsgWinsFolded (name winner),
                                              stage := Showdown,
                                              turnSeat := - 1\<rparr>);
                                   s3 = s2\<lparr>revealSeats := set_add (seat winner) (revealSeats s2),
                                           lastWinners := [\<lparr>w_seat = seat winner, w_name = name winner,
                                                             w_amount = won, category = None,
                                                             categoryName = catName None\<rparr>]\<rparr>;
                                   s4 = log_add (LogWinUncontested (name winner) won) s3
                               in Inr (HandOver (s4\<lparr>pots := buildSidePots s4\<rparr>))))
                     else Inr (Applied s1))
              | Check \<Rightarrow>
                 if toCall \<noteq> 0 then Inr (Rejected s)
                 else Inr (Applied (log_add (LogCheck (name actor))
                                      (upd_player ai (\<lambda>p. p\<lparr>hasActedThisRound := True\<rparr>) s)))
              | Call \<Rightarrow>
                 if toCall \<le> 0 then Inr (Rejected s)
                 else (case commitChips s st toCall of
                         Inl e \<Rightarrow> Inl e
                       | Inr (pay, s1) \<Rightarrow>
                          if pay \<le> 0 then Inr (Rejected s1)
                          else Inr (Applied (log_add (LogCall (name actor) pay)
                                               (upd_player ai (\<lambda>p. p\<lparr>hasActedThisRound := True\<rparr>) s1))))
              | Bet \<Rightarrow>
                 if currentBet s \<noteq> 0 then Inr (Rejected s)
                 else (let desired = max (bigBlind s) requested
                       in if desired \<le> 0 then Inr (Rejected s)
                          else (case commitChips s st (max 0 (desired - contributed)) of
                                  Inl e \<Rightarrow> Inl e
                                | Inr (pay, s1) \<Rightarrow>
                                   if pay \<le> 0 then Inr (Rejected s1)
                                   else (let prev = currentBet s1;
                                             s2 = s1\<lparr>currentBet := max prev (get0 (streetBets s1) st),
                                                     minRaise := bigBlind s1,
                                                     lastAggressorSeat := Some st\<rparr>;
                                             s3 = upd_player ai (\<lambda>p. p\<lparr>hasActedThisRound := True\<rparr>)
                                                    (reopenRound st s2)
                                         in Inr (Applied (log_add (LogBet (name actor) (currentBet s3)) s3)))))
              | Raise \<Rightarrow>
                 (let raiseTo = max (currentBet s + minRaise) requested
                  in if raiseTo \<le> currentBet s then Inr (Rejected s)
                     else (case commitChips s st (max 0 (raiseTo - contributed)) of
                             Inl e \<Rightarrow> Inl e
                           | Inr (pay, s1) \<Rightarrow>
                              if pay \<le> 0 then Inr (Rejected s1)
                              else (let prev = currentBet s1;
                                        s2 = (if get0 (streetBets s1) st > prev
                                              then reopenRound st
                                                     (s1\<lparr>currentBet := get0 (streetBets s1) st,
                                                         minRaise := bigBlind s1,
                                                         lastAggressorSeat := Some st\<rparr>)
                                              else s1);
                                        s3 = upd_player ai (\<lambda>p. p\<lparr>hasActedThisRound := True\<rparr>) s2
                                    in Inr (Applied (log_add (LogRaise (name actor) (currentBet s3)) s3)))))))"

text \<open>The rest of \<open>playerAction\<close>: close the round or pass the turn.\<close>

definition moveTurn :: "engine \<Rightarrow> error + engine" where
  "moveTurn s =
     (if bettingStage (stage s)
      then (if everyoneActedOrAllIn s then advanceStage s
            else Inr (s\<lparr>turnSeat := int (nextSeat s (nat (turnSeat s)))\<rparr>))
      else Inr s)"

definition playerAction :: "engine \<Rightarrow> string \<Rightarrow> action \<Rightarrow> real option \<Rightarrow> error + (bool \<times> engine)" where
  "playerAction s pid kind amt =
     (case applyAction s pid kind amt of
        Inl e \<Rightarrow> Inl e
      | Inr (Rejected s0) \<Rightarrow> Inr (False, s0)
      | Inr (HandOver s1) \<Rightarrow> Inr (True, s1)
      | Inr (Applied s1) \<Rightarrow>
         (case moveTurn s1 of Inl e \<Rightarrow> Inl e | Inr s2 \<Rightarrow> Inr (True, s2)))"

section \<open>addPlayer: the starting stack\<close>

lemma addPlayer_success:
  assumes "addPlayer s pid nm stk owner = (True, s')"
  shows "players s' = players s @ [\<lparr>player_id = pid, name = nm, stack = max 1 \<lfloor>stk\<rfloor>, seat = length (players s),
                     hole = None, inHand = True, hasActedThisRound = False, isAllIn = False,
                     isOwner = owner\<rparr>]"
  using assms by (auto simp: addPlayer_def log_add_def Let_def split: if_splits)

text \<open>
  Claim C10. Every successful \<open>addPlayer\<close> appends one player whose stack is
  \<open>max(1, floor(requested stack))\<close>: the stack is at least 1, never 0, whatever real number
  was requested (zero, negative or fractional).
\<close>

theorem addPlayer_stack_at_least_one:
  assumes "addPlayer s pid nm stk owner = (True, s')"
  shows "\<exists>p. players s' = players s @ [p] \<and> player_id p = pid \<and> name p = nm
             \<and> stack p = max 1 \<lfloor>stk\<rfloor> \<and> 1 \<le> stack p \<and> stack p \<noteq> 0"
  using addPlayer_success[OF assms] by simp

theorem addPlayer_stack_at_least_one_witness:
  "addPlayer (new_engine ''R'') ''a'' ''Ann'' (- 7 / 2) True
     = (True, snd (addPlayer (new_engine ''R'') ''a'' ''Ann'' (- 7 / 2) True))
   \<and> (\<exists>p. players (snd (addPlayer (new_engine ''R'') ''a'' ''Ann'' (- 7 / 2) True)) = [p] \<and> stack p = 1)"
proof -
  have h: "addPlayer (new_engine ''R'') ''a'' ''Ann'' (- 7 / 2) True
     = (True, snd (addPlayer (new_engine ''R'') ''a'' ''Ann'' (- 7 / 2) True))"
    by (simp add: addPlayer_def new_engine_def MAX_PLAYERS_def Let_def)
  have fl: "\<lfloor>- 7 / 2 :: real\<rfloor> = - 4" by (simp add: floor_eq_iff)
  from addPlayer_stack_at_least_one[OF h] fl show ?thesis
    using h by (auto simp: new_engine_def)
qed

section \<open>Showdown: the split of a pot\<close>

lemma won_get_update: "won_get (AList.update k v won) st = (if st = k then v else won_get won st)"
  by (simp add: won_get_def update_conv')

lemma won_get_shares:
  "distinct bs \<Longrightarrow>
   won_get (fold (\<lambda>st w. AList.update st (won_get w st + share) w) bs won) s
     = won_get won s + (if s \<in> set bs then share else 0)"
  by (induction bs arbitrary: won) (auto simp: won_get_update)

lemma won_get_giveRemainder:
  "0 \<le> r \<Longrightarrow> idx + nat r \<le> length bs \<Longrightarrow> distinct bs \<Longrightarrow>
   won_get (giveRemainder bs r idx won) s
     = won_get won s + (if \<exists>j. idx \<le> j \<and> j < idx + nat r \<and> bs ! j = s then 1 else 0)"
proof (induction bs r idx won rule: giveRemainder.induct)
  case (1 bs r idx won)
  show ?case
  proof (cases "r > 0")
    case False
    with "1.prems" show ?thesis by (simp add: giveRemainder.simps)
  next
    case True
    with "1.prems" have idx: "idx < length bs" by linarith
    let ?st = "bs ! (idx mod length bs)"
    have st: "?st = bs ! idx" using idx by simp
    have step: "giveRemainder bs r idx won
        = giveRemainder bs (r - 1) (idx + 1) (AList.update ?st (won_get won ?st + 1) won)"
      using True by (subst giveRemainder.simps) (simp add: Let_def)
    have ih: "won_get (giveRemainder bs (r - 1) (idx + 1) (AList.update ?st (won_get won ?st + 1) won)) s
        = won_get (AList.update ?st (won_get won ?st + 1) won) s
          + (if \<exists>j. idx + 1 \<le> j \<and> j < idx + 1 + nat (r - 1) \<and> bs ! j = s then 1 else 0)"
      using "1.IH"[OF True refl] "1.prems" True by (simp add: nat_diff_distrib)
    have n: "idx + 1 + nat (r - 1) = idx + nat r" using True by (simp add: nat_diff_distrib)
    show ?thesis
    proof (cases "s = bs ! idx")
      case True
      have "\<not> (\<exists>j. idx + 1 \<le> j \<and> j < idx + nat r \<and> bs ! j = s)"
      proof
        assume "\<exists>j. idx + 1 \<le> j \<and> j < idx + nat r \<and> bs ! j = s"
        then obtain j where j: "idx + 1 \<le> j" "j < idx + nat r" "bs ! j = s" by blast
        with "1.prems" True idx have "j = idx"
          by (simp add: nth_eq_iff_index_eq)
        with j show False by simp
      qed
      moreover have "\<exists>j. idx \<le> j \<and> j < idx + nat r \<and> bs ! j = s"
        using True \<open>r > 0\<close> by (intro exI[of _ idx]) simp
      ultimately show ?thesis
        unfolding step ih n using True st by (simp add: won_get_update)
    next
      case False
      have "(\<exists>j. idx + 1 \<le> j \<and> j < idx + nat r \<and> bs ! j = s)
            \<longleftrightarrow> (\<exists>j. idx \<le> j \<and> j < idx + nat r \<and> bs ! j = s)"
      proof
        assume "\<exists>j. idx + 1 \<le> j \<and> j < idx + nat r \<and> bs ! j = s"
        then obtain j where "idx + 1 \<le> j" "j < idx + nat r" "bs ! j = s" by blast
        then show "\<exists>j. idx \<le> j \<and> j < idx + nat r \<and> bs ! j = s"
          by (intro exI[of _ j]) simp
      next
        assume "\<exists>j. idx \<le> j \<and> j < idx + nat r \<and> bs ! j = s"
        then obtain j where j: "idx \<le> j" "j < idx + nat r" "bs ! j = s" by blast
        with False have "j \<noteq> idx" by auto
        with j show "\<exists>j. idx + 1 \<le> j \<and> j < idx + nat r \<and> bs ! j = s"
          by (intro exI[of _ j]) simp
      qed
      then show ?thesis
        unfolding step ih n using False st by (simp add: won_get_update)
    qed
  qed
qed

lemma splitPot_credit:
  assumes d: "distinct bestSeats" and ne: "bestSeats \<noteq> []" and i: "i < length bestSeats"
  shows "won_get (splitPot A bestSeats won) (sort bestSeats ! i)
           = won_get won (sort bestSeats ! i) + A div int (length bestSeats)
             + (if int i < A mod int (length bestSeats) then 1 else 0)"
proof -
  let ?k = "int (length bestSeats)"
  let ?bs = "sort bestSeats"
  have k: "0 < ?k" using ne by simp
  have rem: "A - A div ?k * ?k = A mod ?k" by (simp add: minus_div_mult_eq_mod)
  have r0: "0 \<le> A mod ?k" and r1: "A mod ?k < ?k" using k by simp_all
  have ds: "distinct ?bs" using d by simp
  have ls: "length ?bs = length bestSeats" by simp
  have "?bs ! i \<in> set ?bs" using i by (intro nth_mem) simp
  then have mem: "?bs ! i \<in> set bestSeats" by simp
  have "(\<exists>j. 0 \<le> j \<and> j < 0 + nat (A mod ?k) \<and> ?bs ! j = ?bs ! i) \<longleftrightarrow> int i < A mod ?k"
  proof
    assume "\<exists>j. 0 \<le> j \<and> j < 0 + nat (A mod ?k) \<and> ?bs ! j = ?bs ! i"
    then obtain j where j: "j < nat (A mod ?k)" "?bs ! j = ?bs ! i" by auto
    with r1 have "j < length ?bs" by simp
    with j ds i have "j = i" by (simp add: nth_eq_iff_index_eq)
    with j show "int i < A mod ?k" by simp
  next
    assume "int i < A mod ?k"
    then show "\<exists>j. 0 \<le> j \<and> j < 0 + nat (A mod ?k) \<and> ?bs ! j = ?bs ! i"
      by (intro exI[of _ i]) simp
  qed
  moreover have "0 + nat (A mod ?k) \<le> length ?bs" using r1 by simp
  ultimately show ?thesis
    unfolding splitPot_def Let_def rem
    using won_get_giveRemainder[OF r0 _ ds, of 0] won_get_shares[OF d] mem
    by simp
qed

lemma splitPot_others:
  assumes d: "distinct bestSeats" and ne: "bestSeats \<noteq> []" and s: "s \<notin> set bestSeats"
  shows "won_get (splitPot A bestSeats won) s = won_get won s"
proof -
  let ?k = "int (length bestSeats)"
  let ?bs = "sort bestSeats"
  have k: "0 < ?k" using ne by simp
  have rem: "A - A div ?k * ?k = A mod ?k" by (simp add: minus_div_mult_eq_mod)
  have r0: "0 \<le> A mod ?k" and r1: "A mod ?k < ?k" using k by simp_all
  have ds: "distinct ?bs" using d by simp
  have "\<not> (\<exists>j. 0 \<le> j \<and> j < 0 + nat (A mod ?k) \<and> ?bs ! j = s)"
  proof
    assume "\<exists>j. 0 \<le> j \<and> j < 0 + nat (A mod ?k) \<and> ?bs ! j = s"
    then obtain j where j: "j < nat (A mod ?k)" "?bs ! j = s" by auto
    with r1 have "j < length ?bs" by simp
    then have "?bs ! j \<in> set ?bs" by (rule nth_mem)
    with j s show False by simp
  qed
  moreover have "0 + nat (A mod ?k) \<le> length ?bs" using r1 by simp
  ultimately show ?thesis
    unfolding splitPot_def Let_def rem
    using won_get_giveRemainder[OF r0 _ ds, of 0] won_get_shares[OF d] s
    by simp
qed

lemma splitPot_example: "splitPot 100 [2, 5, 7] [] = [(2, 34), (5, 33), (7, 33)]"
  by code_simp

section \<open>A table used in the examples\<close>

text \<open>Ann (100 chips, owner), Bob (30) and Cy (30) join a new table, in this order.\<close>

definition table3 :: engine where
  "table3 =
     snd (addPlayer (snd (addPlayer (snd (addPlayer (new_engine ''R'') ''a'' ''Ann'' 100 True))
                                    ''b'' ''Bob'' 30 False))
                    ''c'' ''Cy'' 30 False)"

lemma table3_eq:
  "table3 =
     \<lparr>code = ''R'', stage = Waiting,
      players =
        [\<lparr>player_id = ''a'', name = ''Ann'', stack = 100, seat = 0, hole = None,
           inHand = True, hasActedThisRound = False, isAllIn = False, isOwner = True\<rparr>,
         \<lparr>player_id = ''b'', name = ''Bob'', stack = 30, seat = 1, hole = None,
           inHand = True, hasActedThisRound = False, isAllIn = False, isOwner = False\<rparr>,
         \<lparr>player_id = ''c'', name = ''Cy'', stack = 30, seat = 2, hole = None,
           inHand = True, hasActedThisRound = False, isAllIn = False, isOwner = False\<rparr>],
      dealerSeat = 0, smallBlind = 1, bigBlind = 2, currentBet = 0, minRaise = 2, pot = 0,
      community = [], turnSeat = 0, deck = [], lastAggressorSeat = None, message = MsgEmpty,
      lastWinners = [], state_actionLog = [], pots = [], streetBets = [0, 0, 0],
      totalBets = [0, 0, 0], publicReveals = Map.empty, revealSeats = [],
      actionLog = [LogJoined ''Ann'' 1 100, LogJoined ''Bob'' 2 30, LogJoined ''Cy'' 3 30]\<rparr>"
  by (simp add: table3_def addPlayer_def new_engine_def MAX_PLAYERS_def Let_def log_add_def
                LOG_LIMIT_def splice_in0_def)

section \<open>buildSidePots against its description\<close>

lemma min_layer:
  assumes "cs \<noteq> []" and "\<forall>i \<in> set cs. 0 < (remain :: int list) ! i"
  shows "0 < Min (set (map (\<lambda>i. remain ! i) cs))"
    and "\<forall>i \<in> set cs. Min (set (map (\<lambda>i. remain ! i) cs)) \<le> remain ! i"
proof -
  have fin: "finite (set (map (\<lambda>i. remain ! i) cs))" by simp
  have ne: "set (map (\<lambda>i. remain ! i) cs) \<noteq> {}" using assms(1) by simp
  have "Min (set (map (\<lambda>i. remain ! i) cs)) \<in> set (map (\<lambda>i. remain ! i) cs)"
    using fin ne by (rule Min_in)
  with assms(2) show "0 < Min (set (map (\<lambda>i. remain ! i) cs))" by auto
  show "\<forall>i \<in> set cs. Min (set (map (\<lambda>i. remain ! i) cs)) \<le> remain ! i"
    using fin by (auto intro: Min_le)
qed

lemma posSum_spec_decreases:
  assumes ne: "filter (\<lambda>i. remain ! i > 0) [0 ..< length remain] \<noteq> []"
  shows "posSum (map (\<lambda>v. if v > 0 then v - Min (set (map (\<lambda>i. remain ! i)
                      (filter (\<lambda>i. remain ! i > 0) [0 ..< length remain]))) else v) remain)
         < posSum remain"
proof -
  let ?cs = "filter (\<lambda>i. remain ! i > 0) [0 ..< length remain]"
  let ?L = "Min (set (map (\<lambda>i. remain ! i) ?cs))"
  have pos: "\<forall>i \<in> set ?cs. 0 < remain ! i" by simp
  note L = min_layer[OF ne pos]
  from ne obtain c where c: "c \<in> set ?cs" by (cases ?cs) auto
  have "(\<Sum>i = 0..<length remain. nat (max 0 (if remain ! i > 0 then remain ! i - ?L else remain ! i)))
        < (\<Sum>i = 0..<length remain. nat (max 0 (remain ! i)))"
  proof (rule sum_strict_mono_ex1)
    show "finite {0..<length remain}" by simp
    show "\<forall>i\<in>{0..<length remain}.
            nat (max 0 (if remain ! i > 0 then remain ! i - ?L else remain ! i)) \<le> nat (max 0 (remain ! i))"
      using L(1) by auto
    have "c < length remain" "0 < remain ! c" using c by auto
    moreover have "?L \<le> remain ! c" using L(2) c by blast
    ultimately show "\<exists>i\<in>{0..<length remain}.
            nat (max 0 (if remain ! i > 0 then remain ! i - ?L else remain ! i)) < nat (max 0 (remain ! i))"
      using L(1) by (intro bexI[of _ c]) auto
  qed
  moreover have "posSum (map (\<lambda>v. if v > 0 then v - ?L else v) remain) =
      (\<Sum>i = 0..<length remain. nat (max 0 (if remain ! i > 0 then remain ! i - ?L else remain ! i)))"
    unfolding posSum_def by (rule sum.cong) simp_all
  ultimately show ?thesis by (simp add: posSum_def)
qed

text \<open>
  The description of \<open>buildSidePots\<close> in the specification, on the remaining contributions
  \<open>remain\<close> and the predicate \<open>inH\<close> (seat still in hand): the contributors are the seats with
  a positive remaining contribution, the layer is the least of their contributions, the pot
  is \<open>layer * number of contributors\<close>, eligible are the contributors in hand, the layer is
  taken off every contributor, and so on until no seat has a positive remainder.
\<close>

function sidePots_spec :: "(nat \<Rightarrow> bool) \<Rightarrow> int list \<Rightarrow> sidePot list" where
  "sidePots_spec inH remain =
     (let contributors = filter (\<lambda>i. remain ! i > 0) [0 ..< length remain]
      in if contributors = [] then []
         else (let layer = Min (set (map (\<lambda>i. remain ! i) contributors));
                   amt = layer * int (length contributors);
                   remain' = map (\<lambda>v. if v > 0 then v - layer else v) remain
               in (if amt > 0 then [\<lparr>amount = amt, eligibleSeats = filter inH contributors\<rparr>] else [])
                  @ sidePots_spec inH remain'))"
  by pat_completeness auto
termination
  by (relation "measure (\<lambda>(inH, remain). posSum remain)")
     (rule wf_measure, hypsubst, simp only: in_measure prod.case, erule posSum_spec_decreases)

declare sidePots_spec.simps [simp del]

lemma buildSidePots_loop_refines:
  "length remain = n \<Longrightarrow> buildSidePots_loop ps n remain = sidePots_spec (inHandAt ps) remain"
proof (induction "posSum remain" arbitrary: remain rule: less_induct)
  case less
  let ?cs = "filter (\<lambda>i. remain ! i > 0) [0 ..< length remain]"
  have cs: "snd (scanLayer n remain) = ?cs"
    using less.prems by (auto simp: scanLayer_contributors get0_pos intro: filter_cong)
  show ?case
  proof (cases "?cs = []")
    case True
    have "\<not> (\<exists>v \<in> set remain. v > 0)"
    proof
      assume "\<exists>v \<in> set remain. v > 0"
      then obtain i where "i < length remain" "remain ! i > 0" by (auto simp: in_set_conv_nth)
      then have "i \<in> set ?cs" by simp
      with True show False by simp
    qed
    then have "buildSidePots_loop ps n remain = []"
      by (subst buildSidePots_loop.simps) simp
    moreover have "sidePots_spec (inHandAt ps) remain = []"
      using True by (subst sidePots_spec.simps) simp
    ultimately show ?thesis by simp
  next
    case False
    then obtain c where c: "c \<in> set ?cs" by (cases ?cs) auto
    then have ex: "\<exists>v \<in> set remain. v > 0" by auto
    obtain l0 where sl0: "scanLayer n remain = (l0, ?cs)"
      using cs by (cases "scanLayer n remain") auto
    with False obtain L where sl: "scanLayer n remain = (Some L, ?cs)"
      using scanLayer_None by (cases l0) auto
    note lay = scanLayer_layer[OF sl]
    let ?M = "Min (set (map (\<lambda>i. remain ! i) ?cs))"
    have LM: "L = ?M"
    proof (rule sym, rule Min_eqI)
      show "finite (set (map (\<lambda>i. remain ! i) ?cs))" by simp
      show "\<And>y. y \<in> set (map (\<lambda>i. remain ! i) ?cs) \<Longrightarrow> L \<le> y" using lay by auto
      show "L \<in> set (map (\<lambda>i. remain ! i) ?cs)" using lay by auto
    qed
    have d: "distinct ?cs" and r: "\<forall>i \<in> set ?cs. i < length remain" by auto
    have sub: "subtractLayer L ?cs remain = map (\<lambda>v. if v > 0 then v - L else v) remain"
      unfolding subtractLayer_nth[OF d r] by (rule nth_equalityI) auto
    have dec: "posSum (subtractLayer L ?cs remain) < posSum remain"
      by (rule posSum_decreases[OF sl False])
    have len: "length (subtractLayer L ?cs remain) = n"
      unfolding sub using less.prems by simp
    have ih: "buildSidePots_loop ps n (subtractLayer L ?cs remain)
              = sidePots_spec (inHandAt ps) (subtractLayer L ?cs remain)"
      by (rule less.hyps[OF dec len])
    have Lpos: "0 < L" using lay by simp
    have e1: "buildSidePots_loop ps n remain =
        (if L * int (length ?cs) > 0
         then [\<lparr>amount = L * int (length ?cs), eligibleSeats = filter (inHandAt ps) ?cs\<rparr>] else [])
        @ buildSidePots_loop ps n (subtractLayer L ?cs remain)"
      using ex sl False Lpos by (subst buildSidePots_loop.simps) (simp add: Let_def)
    have e2: "sidePots_spec (inHandAt ps) remain =
        (if ?M * int (length ?cs) > 0
         then [\<lparr>amount = ?M * int (length ?cs), eligibleSeats = filter (inHandAt ps) ?cs\<rparr>] else [])
        @ sidePots_spec (inHandAt ps) (map (\<lambda>v. if v > 0 then v - ?M else v) remain)"
      by (subst sidePots_spec.simps) (simp only: Let_def False if_False)
    from LM have M: "?M = L" by (rule sym)
    have ih': "buildSidePots_loop ps n (map (\<lambda>v. if v > 0 then v - L else v) remain)
              = sidePots_spec (inHandAt ps) (map (\<lambda>v. if v > 0 then v - L else v) remain)"
      using ih unfolding sub .
    show ?thesis
      by (simp only: e1 e2 M sub ih')
  qed
qed

lemma buildSidePots_refines:
  assumes "length (totalBets s) = length (players s)"
  shows "buildSidePots s = sidePots_spec (inHandAt (players s)) (map (\<lambda>x. max 0 x) (totalBets s))"
proof (cases "length (players s) = 0")
  case True
  with assms have "totalBets s = []" by simp
  then have "sidePots_spec (inHandAt (players s)) (map (\<lambda>x. max 0 x) (totalBets s)) = []"
    by (subst sidePots_spec.simps) simp
  with True show ?thesis by (simp add: buildSidePots_def)
next
  case False
  then show ?thesis
    using assms by (simp add: buildSidePots_def Let_def buildSidePots_loop_refines)
qed

lemma sidePots_spec_example:
  assumes "inH 0" "inH (Suc 0)" "inH (Suc (Suc 0))"
  shows "sidePots_spec inH [10, 30, 50] =
     [\<lparr>amount = 30, eligibleSeats = [0, 1, 2]\<rparr>,
      \<lparr>amount = 40, eligibleSeats = [1, 2]\<rparr>,
      \<lparr>amount = 20, eligibleSeats = [2]\<rparr>]"
  apply (subst sidePots_spec.simps, simp add: upt_rec Let_def assms)
  apply (subst sidePots_spec.simps, simp add: upt_rec Let_def assms)
  apply (subst sidePots_spec.simps, simp add: upt_rec Let_def assms)
  apply (subst sidePots_spec.simps, simp add: upt_rec Let_def assms)
  done

text \<open>
  Claim C2. On a table whose ledger \<open>totalBets\<close> has one entry per seat, \<open>buildSidePots\<close>
  computes exactly what the specification describes (\<open>sidePots_spec\<close>, on the contributions
  \<open>max(0, totalBets[i])\<close>): layer after layer, the least positive remaining contribution
  times the number of seats with a positive remainder, eligible the contributors in hand,
  until no remainder is positive. For \<open>totalBets = [10, 30, 50]\<close> and three players in hand
  the pots are 30 for seats 0, 1, 2, then 40 for seats 1, 2, then 20 for seat 2.
\<close>

theorem buildSidePots_layers:
  "(length (totalBets s) = length (players s) \<longrightarrow>
      buildSidePots s = sidePots_spec (inHandAt (players s)) (map (\<lambda>x. max 0 x) (totalBets s)))
   \<and> (totalBets s = [10, 30, 50] \<and> length (players s) = 3 \<and> (\<forall>p \<in> set (players s). inHand p) \<longrightarrow>
      buildSidePots s =
        [\<lparr>amount = 30, eligibleSeats = [0, 1, 2]\<rparr>,
         \<lparr>amount = 40, eligibleSeats = [1, 2]\<rparr>,
         \<lparr>amount = 20, eligibleSeats = [2]\<rparr>])"
proof (intro conjI impI)
  assume "length (totalBets s) = length (players s)"
  then show "buildSidePots s = sidePots_spec (inHandAt (players s)) (map (\<lambda>x. max 0 x) (totalBets s))"
    by (rule buildSidePots_refines)
next
  assume a: "totalBets s = [10, 30, 50] \<and> length (players s) = 3 \<and> (\<forall>p \<in> set (players s). inHand p)"
  then have len: "length (totalBets s) = length (players s)" by simp
  have "inHandAt (players s) i" if "i < 3" for i
    using a that by (simp add: inHandAt_def js_at_def)
  then have "inHandAt (players s) 0" "inHandAt (players s) (Suc 0)" "inHandAt (players s) (Suc (Suc 0))"
    by simp_all
  then have "sidePots_spec (inHandAt (players s)) [10, 30, 50] =
     [\<lparr>amount = 30, eligibleSeats = [0, 1, 2]\<rparr>,
      \<lparr>amount = 40, eligibleSeats = [1, 2]\<rparr>,
      \<lparr>amount = 20, eligibleSeats = [2]\<rparr>]"
    by (rule sidePots_spec_example)
  with buildSidePots_refines[OF len] a show "buildSidePots s =
        [\<lparr>amount = 30, eligibleSeats = [0, 1, 2]\<rparr>,
         \<lparr>amount = 40, eligibleSeats = [1, 2]\<rparr>,
         \<lparr>amount = 20, eligibleSeats = [2]\<rparr>]"
    by simp
qed

theorem buildSidePots_layers_witness:
  "length (totalBets (table3\<lparr>totalBets := [10, 30, 50]\<rparr>)) = length (players (table3\<lparr>totalBets := [10, 30, 50]\<rparr>))
   \<and> totalBets (table3\<lparr>totalBets := [10, 30, 50]\<rparr>) = [10, 30, 50]
   \<and> length (players (table3\<lparr>totalBets := [10, 30, 50]\<rparr>)) = 3
   \<and> map inHand (players (table3\<lparr>totalBets := [10, 30, 50]\<rparr>)) = [True, True, True]
   \<and> buildSidePots (table3\<lparr>totalBets := [10, 30, 50]\<rparr>) =
        [\<lparr>amount = 30, eligibleSeats = [0, 1, 2]\<rparr>,
         \<lparr>amount = 40, eligibleSeats = [1, 2]\<rparr>,
         \<lparr>amount = 20, eligibleSeats = [2]\<rparr>]
   \<and> sidePots_spec (inHandAt (players table3)) [10, 30, 50] =
        [\<lparr>amount = 30, eligibleSeats = [0, 1, 2]\<rparr>,
         \<lparr>amount = 40, eligibleSeats = [1, 2]\<rparr>,
         \<lparr>amount = 20, eligibleSeats = [2]\<rparr>]"
proof -
  let ?s = "table3\<lparr>totalBets := [10, 30, 50]\<rparr>"
  have h: "totalBets ?s = [10, 30, 50] \<and> length (players ?s) = 3 \<and> (\<forall>p \<in> set (players ?s). inHand p)"
    by (simp add: table3_eq)
  have l: "length (totalBets ?s) = length (players ?s)"
    by (simp add: table3_eq)
  from buildSidePots_layers[of ?s] h have b: "buildSidePots ?s =
        [\<lparr>amount = 30, eligibleSeats = [0, 1, 2]\<rparr>,
         \<lparr>amount = 40, eligibleSeats = [1, 2]\<rparr>,
         \<lparr>amount = 20, eligibleSeats = [2]\<rparr>]"
    by blast
  from buildSidePots_layers[of ?s] l
  have "buildSidePots ?s = sidePots_spec (inHandAt (players ?s)) (map (\<lambda>x. max 0 x) (totalBets ?s))"
    by blast
  with b have "sidePots_spec (inHandAt (players table3)) [10, 30, 50] =
        [\<lparr>amount = 30, eligibleSeats = [0, 1, 2]\<rparr>,
         \<lparr>amount = 40, eligibleSeats = [1, 2]\<rparr>,
         \<lparr>amount = 20, eligibleSeats = [2]\<rparr>]"
    by simp
  moreover have "map inHand (players ?s) = [True, True, True]"
    by (simp add: table3_eq)
  ultimately show ?thesis using h l b by blast
qed

section \<open>The broadcast view\<close>

text \<open>
  Two players that differ at most in the values of their hole cards, and hold the same number
  of them.
\<close>

definition same_public :: "player \<Rightarrow> player \<Rightarrow> bool" where
  "same_public p q \<longleftrightarrow>
     q\<lparr>hole := hole p\<rparr> = p
     \<and> (case hole p of None \<Rightarrow> 0 | Some h \<Rightarrow> length h) = (case hole q of None \<Rightarrow> 0 | Some h \<Rightarrow> length h)"

lemma same_public_fields:
  assumes "same_public p q"
  shows "player_id p = player_id q" "name p = name q" "stack p = stack q" "seat p = seat q"
        "inHand p = inHand q" "hasActedThisRound p = hasActedThisRound q"
        "isAllIn p = isAllIn q" "isOwner p = isOwner q"
proof -
  from assms have e: "q\<lparr>hole := hole p\<rparr> = p" by (simp add: same_public_def)
  show "player_id p = player_id q" using arg_cong[OF e, of player_id] by simp
  show "name p = name q" using arg_cong[OF e, of name] by simp
  show "stack p = stack q" using arg_cong[OF e, of stack] by simp
  show "seat p = seat q" using arg_cong[OF e, of seat] by simp
  show "inHand p = inHand q" using arg_cong[OF e, of inHand] by simp
  show "hasActedThisRound p = hasActedThisRound q" using arg_cong[OF e, of hasActedThisRound] by simp
  show "isAllIn p = isAllIn q" using arg_cong[OF e, of isAllIn] by simp
  show "isOwner p = isOwner q" using arg_cong[OF e, of isOwner] by simp
qed

lemma buildSidePots_loop_inHand_only:
  "inHandAt ps = inHandAt qs \<Longrightarrow> buildSidePots_loop ps n remain = buildSidePots_loop qs n remain"
proof (induction ps n remain rule: buildSidePots_loop.induct)
  case (1 ps n remain)
  show ?case
    apply (subst buildSidePots_loop.simps)
    apply (subst (2) buildSidePots_loop.simps)
    using 1 by (auto simp: Let_def split: prod.splits option.splits)
qed

lemma same_public_inHandAt:
  assumes "list_all2 same_public ps qs"
  shows "inHandAt ps = inHandAt qs"
proof
  fix i
  from assms have len: "length ps = length qs" by (rule list_all2_lengthD)
  show "inHandAt ps i = inHandAt qs i"
  proof (cases "i < length ps")
    case True
    with assms have "same_public (ps ! i) (qs ! i)" by (simp add: list_all2_nthD)
    then have "inHand (ps ! i) = inHand (qs ! i)" by (rule same_public_fields)
    with True len show ?thesis by (simp add: inHandAt_def js_at_def)
  next
    case False
    with len show ?thesis by (simp add: inHandAt_def js_at_def)
  qed
qed

lemma view_players_same_public:
  assumes "list_all2 same_public ps qs"
  shows "map (\<lambda>p. \<lparr>v_id = player_id p, v_name = name p, v_stack = stack p,
                    v_seat = seat p, v_inHand = inHand p,
                    v_hasActedThisRound = hasActedThisRound p,
                    v_isAllIn = isAllIn p, v_isOwner = isOwner p,
                    holeCount = (case hole p of None \<Rightarrow> 0 | Some h \<Rightarrow> length h),
                    publicHole = pr (seat p),
                    v_hole = None\<rparr>) ps
       = map (\<lambda>p. \<lparr>v_id = player_id p, v_name = name p, v_stack = stack p,
                    v_seat = seat p, v_inHand = inHand p,
                    v_hasActedThisRound = hasActedThisRound p,
                    v_isAllIn = isAllIn p, v_isOwner = isOwner p,
                    holeCount = (case hole p of None \<Rightarrow> 0 | Some h \<Rightarrow> length h),
                    publicHole = pr (seat p),
                    v_hole = None\<rparr>) qs"
  using assms
proof (induction rule: list_all2_induct)
  case Nil
  show ?case by simp
next
  case (Cons p ps q qs)
  from Cons.hyps(1) have "(case hole p of None \<Rightarrow> 0 | Some h \<Rightarrow> length h)
      = (case hole q of None \<Rightarrow> 0 | Some h \<Rightarrow> length h)"
    by (simp add: same_public_def)
  with same_public_fields[OF Cons.hyps(1)] Cons.IH show ?case by simp
qed

lemma broadcast_view_noninterference:
  assumes e: "s2\<lparr>deck := deck s1, players := players s1\<rparr> = s1"
      and p: "list_all2 same_public (players s1) (players s2)"
  shows "getBroadcastView s1 = getBroadcastView s2"
proof -
  have f: "code s1 = code s2" "stage s1 = stage s2" "dealerSeat s1 = dealerSeat s2"
    "smallBlind s1 = smallBlind s2" "bigBlind s1 = bigBlind s2" "currentBet s1 = currentBet s2"
    "minRaise s1 = minRaise s2" "pot s1 = pot s2" "community s1 = community s2"
    "turnSeat s1 = turnSeat s2" "lastAggressorSeat s1 = lastAggressorSeat s2"
    "message s1 = message s2" "lastWinners s1 = lastWinners s2" "totalBets s1 = totalBets s2"
    "publicReveals s1 = publicReveals s2" "revealSeats s1 = revealSeats s2"
    "actionLog s1 = actionLog s2"
    using arg_cong[OF e, of code] arg_cong[OF e, of stage] arg_cong[OF e, of dealerSeat]
      arg_cong[OF e, of smallBlind] arg_cong[OF e, of bigBlind] arg_cong[OF e, of currentBet]
      arg_cong[OF e, of minRaise] arg_cong[OF e, of pot] arg_cong[OF e, of community]
      arg_cong[OF e, of turnSeat] arg_cong[OF e, of lastAggressorSeat]
      arg_cong[OF e, of message] arg_cong[OF e, of lastWinners] arg_cong[OF e, of totalBets]
      arg_cong[OF e, of publicReveals] arg_cong[OF e, of revealSeats]
      arg_cong[OF e, of actionLog]
    by simp_all
  from p have len: "length (players s1) = length (players s2)" by (rule list_all2_lengthD)
  have pots: "buildSidePots s1 = buildSidePots s2"
    using buildSidePots_loop_inHand_only[OF same_public_inHandAt[OF p]] len f
    by (simp add: buildSidePots_def Let_def)
  show ?thesis
    unfolding getBroadcastView_def
    using f pots view_players_same_public[OF p] by simp
qed

lemma broadcast_view_entries:
  "length (v_players (getBroadcastView s)) = length (players s)"
  "i < length (players s) \<Longrightarrow>
     v_hole (v_players (getBroadcastView s) ! i) = None
     \<and> holeCount (v_players (getBroadcastView s) ! i)
          = (case hole (players s ! i) of None \<Rightarrow> 0 | Some h \<Rightarrow> length h)
     \<and> publicHole (v_players (getBroadcastView s) ! i) = publicReveals s (seat (players s ! i))"
  by (simp_all add: getBroadcastView_def)

section \<open>A hand used in the examples\<close>

definition mk :: "int \<Rightarrow> suit \<Rightarrow> card" where
  "mk r s = \<lparr>rank = r, suit = s\<rparr>"

text \<open>A deck of 52 cards, as \<open>makeDeck\<close> returns one; the last card is dealt first.\<close>

definition demo_deck :: "card list" where
  "demo_deck =
     concat (map (\<lambda>s. map (\<lambda>r. mk r s) [2, 3, 4, 5, 6, 7, 8, 9, 10, 11, 12, 13, 14])
                 [Clubs, Diamonds, Hearts, Spades])"

text \<open>The first hand at \<open>table3\<close>: Bob has the button, Cy posts 1, Ann posts 2, Bob is to act.\<close>

definition hand0 :: engine where
  "hand0 = (case startHand demo_deck table3 of Inl e \<Rightarrow> table3 | Inr s \<Rightarrow> s)"

lemma hand0_eq:
  "hand0 =
     \<lparr>code = ''R'', stage = Preflop,
      players =
        [\<lparr>player_id = ''a'', name = ''Ann'', stack = 98, seat = 0,
           hole = Some [mk 14 Spades, mk 13 Spades],
           inHand = True, hasActedThisRound = False, isAllIn = False, isOwner = True\<rparr>,
         \<lparr>player_id = ''b'', name = ''Bob'', stack = 30, seat = 1,
           hole = Some [mk 12 Spades, mk 11 Spades],
           inHand = True, hasActedThisRound = False, isAllIn = False, isOwner = False\<rparr>,
         \<lparr>player_id = ''c'', name = ''Cy'', stack = 29, seat = 2,
           hole = Some [mk 10 Spades, mk 9 Spades],
           inHand = True, hasActedThisRound = False, isAllIn = False, isOwner = False\<rparr>],
      dealerSeat = 1, smallBlind = 1, bigBlind = 2, currentBet = 2, minRaise = 2, pot = 3,
      community = [], turnSeat = 1, deck = take 46 demo_deck, lastAggressorSeat = Some 0,
      message = MsgNewHand, lastWinners = [], state_actionLog = [], pots = [],
      streetBets = [2, 0, 1], totalBets = [2, 0, 1], publicReveals = Map.empty,
      revealSeats = [],
      actionLog = [LogJoined ''Ann'' 1 100, LogJoined ''Bob'' 2 30, LogJoined ''Cy'' 3 30,
                   LogPosts ''Cy'' 1, LogPosts ''Ann'' 2, LogNewHand ''Bob'' ''Cy'' 1 2]\<rparr>"
  by (simp add: hand0_def table3_eq startHand_def demo_deck_def mk_def resetReveals_def
                postBlind_def commitChips_def js_at_def get0_def js_set_def nameAt_def
                log_add_def LOG_LIMIT_def Let_def)

text \<open>The same hand dealt from the deck in the opposite order.\<close>

definition hand0_other :: engine where
  "hand0_other = (case startHand (rev demo_deck) table3 of Inl e \<Rightarrow> table3 | Inr s \<Rightarrow> s)"

lemma hand0_other_eq:
  "hand0_other =
     hand0\<lparr>deck := take 46 (rev demo_deck),
            players := [(players hand0 ! 0)\<lparr>hole := Some [mk 2 Clubs, mk 3 Clubs]\<rparr>,
                        (players hand0 ! 1)\<lparr>hole := Some [mk 4 Clubs, mk 5 Clubs]\<rparr>,
                        (players hand0 ! 2)\<lparr>hole := Some [mk 6 Clubs, mk 7 Clubs]\<rparr>]\<rparr>"
  unfolding hand0_eq
  by (simp add: hand0_other_def table3_eq startHand_def demo_deck_def mk_def resetReveals_def
                postBlind_def commitChips_def js_at_def get0_def js_set_def nameAt_def
                log_add_def LOG_LIMIT_def Let_def)

text \<open>
  Claim C9. The broadcast view has no field for the deck, and no entry of its \<open>players\<close>
  carries hole cards: an entry holds the number of hole cards and the cards publicly revealed
  for the seat. Two engine states that differ only in the deck and in the values of the hole
  cards (the same number of them at every seat; everything else, the public reveals among
  it, equal) have the same broadcast view.
\<close>

theorem broadcast_view_secrecy:
  "length (v_players (getBroadcastView s)) = length (players s)
   \<and> (\<forall>i < length (players s).
         v_hole (v_players (getBroadcastView s) ! i) = None
         \<and> holeCount (v_players (getBroadcastView s) ! i)
              = (case hole (players s ! i) of None \<Rightarrow> 0 | Some h \<Rightarrow> length h)
         \<and> publicHole (v_players (getBroadcastView s) ! i) = publicReveals s (seat (players s ! i)))
   \<and> (s2\<lparr>deck := deck s1, players := players s1\<rparr> = s1
        \<and> list_all2 same_public (players s1) (players s2)
        \<longrightarrow> getBroadcastView s1 = getBroadcastView s2)"
  using broadcast_view_entries[where s = s] broadcast_view_noninterference[where ?s1.0 = s1 and ?s2.0 = s2] by blast

theorem broadcast_view_secrecy_witness:
  "hand0_other\<lparr>deck := deck hand0, players := players hand0\<rparr> = hand0
   \<and> list_all2 same_public (players hand0) (players hand0_other)
   \<and> deck hand0 \<noteq> deck hand0_other
   \<and> map hole (players hand0) \<noteq> map hole (players hand0_other)
   \<and> getBroadcastView hand0 = getBroadcastView hand0_other
   \<and> 0 < length (players hand0)
   \<and> v_hole (v_players (getBroadcastView hand0) ! 0) = None
   \<and> holeCount (v_players (getBroadcastView hand0) ! 0) = 2"
proof -
  have a: "hand0_other\<lparr>deck := deck hand0, players := players hand0\<rparr> = hand0"
    unfolding hand0_other_eq by (simp add: hand0_eq)
  have b: "list_all2 same_public (players hand0) (players hand0_other)"
    unfolding hand0_other_eq by (simp add: hand0_eq same_public_def)
  have c: "deck hand0 \<noteq> deck hand0_other"
    unfolding hand0_other_eq by (simp add: hand0_eq demo_deck_def mk_def)
  have d: "map hole (players hand0) \<noteq> map hole (players hand0_other)"
    unfolding hand0_other_eq by (simp add: hand0_eq mk_def)
  have l: "0 < length (players hand0)" by (simp add: hand0_eq)
  note t = broadcast_view_secrecy[where s = hand0 and ?s1.0 = hand0 and ?s2.0 = hand0_other]
  from t a b have v: "getBroadcastView hand0 = getBroadcastView hand0_other" by blast
  from t l have "v_hole (v_players (getBroadcastView hand0) ! 0) = None
       \<and> holeCount (v_players (getBroadcastView hand0) ! 0)
            = (case hole (players hand0 ! 0) of None \<Rightarrow> 0 | Some h \<Rightarrow> length h)"
    by blast
  then have "v_hole (v_players (getBroadcastView hand0) ! 0) = None
       \<and> holeCount (v_players (getBroadcastView hand0) ! 0) = 2"
    by (simp add: hand0_eq)
  with a b c d v l show ?thesis by blast
qed

section \<open>playerAction: the fold that ends the hand\<close>

lemma only_inHand:
  assumes w: "w < length ps" and u: "\<forall>j < length ps. inHand (ps ! j) \<longleftrightarrow> j = w"
  shows "length (filter inHand ps) = 1"
    and "find (\<lambda>i. inHand (ps ! i)) [0 ..< length ps] = Some w"
proof -
  have "{i. i < length ps \<and> inHand (ps ! i)} = {w}" using w u by auto
  then show "length (filter inHand ps) = 1" by (simp add: length_filter_conv_card)
  show "find (\<lambda>i. inHand (ps ! i)) [0 ..< length ps] = Some w"
    unfolding find_Some_iff using w u by (intro exI[of _ w]) auto
qed

lemma log_add_fields [simp]:
  "players (log_add x s) = players s" "stage (log_add x s) = stage s" "pot (log_add x s) = pot s"
  "turnSeat (log_add x s) = turnSeat s" "currentBet (log_add x s) = currentBet s"
  "streetBets (log_add x s) = streetBets s" "totalBets (log_add x s) = totalBets s"
  "bigBlind (log_add x s) = bigBlind s" "community (log_add x s) = community s"
  "deck (log_add x s) = deck s" "revealSeats (log_add x s) = revealSeats s"
  "publicReveals (log_add x s) = publicReveals s" "lastWinners (log_add x s) = lastWinners s"
  "dealerSeat (log_add x s) = dealerSeat s" "pots (log_add x s) = pots s"
  "minRaise (log_add x s) = minRaise s"
  by (simp_all add: log_add_def Let_def)

lemma player_at_Some:
  "player_at ps t = Some a \<longleftrightarrow> 0 \<le> t \<and> nat t < length ps \<and> a = ps ! nat t"
  by (auto simp: player_at_def js_at_def)

lemma showdown_rejects:
  "stage s = Showdown \<Longrightarrow> playerAction s pid kind amt = Inr (False, s)"
  by (simp add: playerAction_def applyAction_def bettingStage_def)

lemma fold_to_one_result:
  assumes st: "bettingStage (stage s)"
      and at: "player_at (players s) (turnSeat s) = Some actor"
      and ok: "player_id actor = pid" "inHand actor" "\<not> isAllIn actor"
      and w: "w < length (players s)" "w \<noteq> nat (turnSeat s)" "inHand (players s ! w)"
      and u: "\<forall>j < length (players s). j \<noteq> w \<and> j \<noteq> nat (turnSeat s) \<longrightarrow> \<not> inHand (players s ! j)"
  shows "\<exists>s'. playerAction s pid Fold amt = Inr (True, s')
           \<and> stage s' = Showdown \<and> turnSeat s' = - 1 \<and> pot s' = 0
           \<and> length (players s') = length (players s)
           \<and> stack (players s' ! w) = stack (players s ! w) + pot s
           \<and> (\<forall>j < length (players s). j \<noteq> w \<longrightarrow> stack (players s' ! j) = stack (players s ! j))
           \<and> (\<forall>j < length (players s). hole (players s' ! j) = hole (players s ! j))
           \<and> revealSeats s' = [seat (players s ! w)]
           \<and> publicReveals s' = Map.empty
           \<and> lastWinners s' = [\<lparr>w_seat = seat (players s ! w), w_name = name (players s ! w),
                                 w_amount = pot s, category = None,
                                 categoryName = ''Uncontested''\<rparr>]
           \<and> community s' = community s \<and> deck s' = deck s"
proof -
  let ?ai = "nat (turnSeat s)"
  let ?ps1 = "(players s)[?ai := (players s ! ?ai)\<lparr>inHand := False, hasActedThisRound := True\<rparr>]"
  from at have ai: "0 \<le> turnSeat s" "?ai < length (players s)" "actor = players s ! ?ai"
    by (simp_all add: player_at_Some)
  have one: "\<forall>j < length ?ps1. inHand (?ps1 ! j) \<longleftrightarrow> j = w"
    using w u ai by (auto simp: nth_list_update)
  have wl: "w < length ?ps1" using w by simp
  note uq = only_inHand[OF wl one]
  have pw: "?ps1 ! w = players s ! w" using w by simp
  let ?s1 = "log_add (LogFold (name actor))
               (upd_player ?ai (\<lambda>p. p\<lparr>inHand := False, hasActedThisRound := True\<rparr>) s)"
  have ps1: "players ?s1 = ?ps1" by (simp add: upd_player_def)
  have ac: "activeCount ?s1 = 1" using uq(1) by (simp add: activeCount_def upd_player_def)
  have fnd: "find (\<lambda>i. inHand (players ?s1 ! i)) [0 ..< length (players ?s1)] = Some w"
    using uq(2) by (simp add: upd_player_def)
  have pot1: "pot ?s1 = pot s" by (simp add: upd_player_def)
  show ?thesis
    using st at ok ac fnd w ai
    by (simp add: playerAction_def applyAction_def Let_def ps1 pw pot1 resetReveals_def
                  set_add_def catName_def upd_player_def nth_list_update)
qed

text \<open>
  Claim C8. The player in turn folds and exactly one other player \<open>w\<close> is still in hand.
  Then \<open>playerAction\<close> succeeds and the hand is over at once: the stage is \<open>showdown\<close>, the
  seat to act is \<open>-1\<close> (none), the whole pot is added to the stack of \<open>w\<close> and to no other
  stack, no card is dealt, \<open>w\<close> alone may choose to show or muck (\<open>revealSeats\<close>) while nothing
  is revealed (\<open>publicReveals\<close> is empty), \<open>lastWinners\<close> is the single uncontested winner
  with no category, and every further \<open>playerAction\<close> is refused.
\<close>

theorem fold_to_one:
  assumes "bettingStage (stage s)"
      and "player_at (players s) (turnSeat s) = Some actor"
      and "player_id actor = pid" and "inHand actor" and "\<not> isAllIn actor"
      and "w < length (players s)" and "w \<noteq> nat (turnSeat s)" and "inHand (players s ! w)"
      and "\<forall>j < length (players s). j \<noteq> w \<and> j \<noteq> nat (turnSeat s) \<longrightarrow> \<not> inHand (players s ! j)"
  shows "\<exists>s'. playerAction s pid Fold amt = Inr (True, s')
           \<and> stage s' = Showdown \<and> turnSeat s' = - 1 \<and> pot s' = 0
           \<and> length (players s') = length (players s)
           \<and> stack (players s' ! w) = stack (players s ! w) + pot s
           \<and> (\<forall>j < length (players s). j \<noteq> w \<longrightarrow> stack (players s' ! j) = stack (players s ! j))
           \<and> (\<forall>j < length (players s). hole (players s' ! j) = hole (players s ! j))
           \<and> revealSeats s' = [seat (players s ! w)]
           \<and> publicReveals s' = Map.empty
           \<and> lastWinners s' = [\<lparr>w_seat = seat (players s ! w), w_name = name (players s ! w),
                                 w_amount = pot s, category = None,
                                 categoryName = ''Uncontested''\<rparr>]
           \<and> community s' = community s \<and> deck s' = deck s
           \<and> (\<forall>pid' kind' amt'. playerAction s' pid' kind' amt' = Inr (False, s'))"
proof -
  from fold_to_one_result[OF assms, of amt] obtain s' where
    r: "playerAction s pid Fold amt = Inr (True, s')
           \<and> stage s' = Showdown \<and> turnSeat s' = - 1 \<and> pot s' = 0
           \<and> length (players s') = length (players s)
           \<and> stack (players s' ! w) = stack (players s ! w) + pot s
           \<and> (\<forall>j < length (players s). j \<noteq> w \<longrightarrow> stack (players s' ! j) = stack (players s ! j))
           \<and> (\<forall>j < length (players s). hole (players s' ! j) = hole (players s ! j))
           \<and> revealSeats s' = [seat (players s ! w)]
           \<and> publicReveals s' = Map.empty
           \<and> lastWinners s' = [\<lparr>w_seat = seat (players s ! w), w_name = name (players s ! w),
                                 w_amount = pot s, category = None,
                                 categoryName = ''Uncontested''\<rparr>]
           \<and> community s' = community s \<and> deck s' = deck s"
    by blast
  then have "stage s' = Showdown" by blast
  then have "\<forall>pid' kind' amt'. playerAction s' pid' kind' amt' = Inr (False, s')"
    by (simp add: showdown_rejects)
  with r show ?thesis by blast
qed

text \<open>In \<open>hand0\<close> Bob folds first; Cy is then to act, with Ann the only other player in hand.\<close>

definition hand0_bob_folded :: engine where
  "hand0_bob_folded = (case playerAction hand0 ''b'' Fold None of Inr (ok, s) \<Rightarrow> s | Inl e \<Rightarrow> hand0)"

lemma hand0_bob_folded_eq:
  "hand0_bob_folded =
     hand0\<lparr>players := (players hand0)[1 := (players hand0 ! 1)\<lparr>inHand := False, hasActedThisRound := True\<rparr>],
            turnSeat := 2,
            actionLog := actionLog hand0 @ [LogFold ''Bob'']\<rparr>"
  unfolding hand0_bob_folded_def hand0_eq
  by (simp add: playerAction_def applyAction_def bettingStage_def player_at_def js_at_def get0_def
                upd_player_def log_add_def LOG_LIMIT_def activeCount_def moveTurn_def
                everyoneActedOrAllIn_def nextSeat_def upt_rec Let_def)

theorem fold_to_one_witness:
  "bettingStage (stage hand0_bob_folded)
   \<and> player_at (players hand0_bob_folded) (turnSeat hand0_bob_folded) = Some (players hand0_bob_folded ! 2)
   \<and> player_id (players hand0_bob_folded ! 2) = ''c''
   \<and> inHand (players hand0_bob_folded ! 2) \<and> \<not> isAllIn (players hand0_bob_folded ! 2)
   \<and> 0 < length (players hand0_bob_folded) \<and> 0 \<noteq> nat (turnSeat hand0_bob_folded)
   \<and> inHand (players hand0_bob_folded ! 0)
   \<and> map inHand (players hand0_bob_folded) = [True, False, True]
   \<and> (\<exists>s'. playerAction hand0_bob_folded ''c'' Fold None = Inr (True, s')
           \<and> stage s' = Showdown \<and> turnSeat s' = - 1 \<and> pot s' = 0
           \<and> stack (players s' ! 0) = 101
           \<and> revealSeats s' = [0] \<and> publicReveals s' = Map.empty)"
proof -
  have h: "bettingStage (stage hand0_bob_folded)"
    "player_at (players hand0_bob_folded) (turnSeat hand0_bob_folded) = Some (players hand0_bob_folded ! 2)"
    "player_id (players hand0_bob_folded ! 2) = ''c''"
    "inHand (players hand0_bob_folded ! 2)" "\<not> isAllIn (players hand0_bob_folded ! 2)"
    "0 < length (players hand0_bob_folded)" "0 \<noteq> nat (turnSeat hand0_bob_folded)"
    "inHand (players hand0_bob_folded ! 0)"
    unfolding hand0_bob_folded_eq hand0_eq
    by (simp_all add: bettingStage_def player_at_def js_at_def)
  have u: "\<forall>j < length (players hand0_bob_folded).
         j \<noteq> 0 \<and> j \<noteq> nat (turnSeat hand0_bob_folded) \<longrightarrow> \<not> inHand (players hand0_bob_folded ! j)"
    unfolding hand0_bob_folded_eq hand0_eq
    by (auto simp: less_Suc_eq)
  have v: "stack (players hand0_bob_folded ! 0) + pot hand0_bob_folded = 101"
    "seat (players hand0_bob_folded ! 0) = 0"
    unfolding hand0_bob_folded_eq hand0_eq by simp_all
  from fold_to_one[OF h u, of None] v
  have "\<exists>s'. playerAction hand0_bob_folded ''c'' Fold None = Inr (True, s')
           \<and> stage s' = Showdown \<and> turnSeat s' = - 1 \<and> pot s' = 0
           \<and> stack (players s' ! 0) = 101
           \<and> revealSeats s' = [0] \<and> publicReveals s' = Map.empty"
    by auto
  moreover have "map inHand (players hand0_bob_folded) = [True, False, True]"
    unfolding hand0_bob_folded_eq hand0_eq by simp
  ultimately show ?thesis using h by blast
qed

section \<open>playerAction, one kind of action at a time\<close>

text \<open>The guard of \<open>playerAction\<close>: the hand is in a betting stage and \<open>actor\<close>, the player at
  \<open>turnSeat\<close>, is the caller, in hand and not all-in.\<close>

definition inTurn :: "engine \<Rightarrow> string \<Rightarrow> player \<Rightarrow> bool" where
  "inTurn s pid actor \<longleftrightarrow>
     bettingStage (stage s) \<and> player_at (players s) (turnSeat s) = Some actor
     \<and> player_id actor = pid \<and> inHand actor \<and> \<not> isAllIn actor"

lemma applyAction_not_inTurn:
  "\<not> (\<exists>actor. inTurn s pid actor) \<Longrightarrow> applyAction s pid kind amt = Inr (Rejected s)"
  by (auto simp: applyAction_def inTurn_def split: option.splits)

lemma applyAction_Check:
  "inTurn s pid actor \<Longrightarrow>
   applyAction s pid Check amt =
     (if max 0 (currentBet s - get0 (streetBets s) (seat actor)) \<noteq> 0 then Inr (Rejected s)
      else Inr (Applied (log_add (LogCheck (name actor))
                  (upd_player (nat (turnSeat s)) (\<lambda>p. p\<lparr>hasActedThisRound := True\<rparr>) s))))"
  by (simp add: applyAction_def inTurn_def Let_def)

lemma applyAction_Call:
  "inTurn s pid actor \<Longrightarrow>
   applyAction s pid Call amt =
     (let toCall = max 0 (currentBet s - get0 (streetBets s) (seat actor))
      in if toCall \<le> 0 then Inr (Rejected s)
         else (case commitChips s (seat actor) toCall of
                 Inl e \<Rightarrow> Inl e
               | Inr (pay, s1) \<Rightarrow>
                  if pay \<le> 0 then Inr (Rejected s1)
                  else Inr (Applied (log_add (LogCall (name actor) pay)
                              (upd_player (nat (turnSeat s)) (\<lambda>p. p\<lparr>hasActedThisRound := True\<rparr>) s1)))))"
  by (simp add: applyAction_def inTurn_def Let_def)

lemma applyAction_Bet:
  "inTurn s pid actor \<Longrightarrow>
   applyAction s pid Bet amt =
     (if currentBet s \<noteq> 0 then Inr (Rejected s)
      else (let desired = max (bigBlind s) \<lfloor>case amt of None \<Rightarrow> 0 | Some a \<Rightarrow> a\<rfloor>
            in if desired \<le> 0 then Inr (Rejected s)
               else (case commitChips s (seat actor) (max 0 (desired - get0 (streetBets s) (seat actor))) of
                       Inl e \<Rightarrow> Inl e
                     | Inr (pay, s1) \<Rightarrow>
                        if pay \<le> 0 then Inr (Rejected s1)
                        else (let s2 = s1\<lparr>currentBet := max (currentBet s1) (get0 (streetBets s1) (seat actor)),
                                          minRaise := bigBlind s1,
                                          lastAggressorSeat := Some (seat actor)\<rparr>;
                                  s3 = upd_player (nat (turnSeat s)) (\<lambda>p. p\<lparr>hasActedThisRound := True\<rparr>)
                                         (reopenRound (seat actor) s2)
                              in Inr (Applied (log_add (LogBet (name actor) (currentBet s3)) s3))))))"
  by (simp add: applyAction_def inTurn_def Let_def split: sum.splits)

lemma applyAction_Raise:
  "inTurn s pid actor \<Longrightarrow>
   applyAction s pid Raise amt =
     (let raiseTo = max (currentBet s + bigBlind s) \<lfloor>case amt of None \<Rightarrow> 0 | Some a \<Rightarrow> a\<rfloor>
      in if raiseTo \<le> currentBet s then Inr (Rejected s)
         else (case commitChips s (seat actor) (max 0 (raiseTo - get0 (streetBets s) (seat actor))) of
                 Inl e \<Rightarrow> Inl e
               | Inr (pay, s1) \<Rightarrow>
                  if pay \<le> 0 then Inr (Rejected s1)
                  else (let s2 = (if get0 (streetBets s1) (seat actor) > currentBet s1
                                  then reopenRound (seat actor)
                                         (s1\<lparr>currentBet := get0 (streetBets s1) (seat actor),
                                             minRaise := bigBlind s1,
                                             lastAggressorSeat := Some (seat actor)\<rparr>)
                                  else s1);
                            s3 = upd_player (nat (turnSeat s)) (\<lambda>p. p\<lparr>hasActedThisRound := True\<rparr>) s2
                        in Inr (Applied (log_add (LogRaise (name actor) (currentBet s3)) s3)))))"
  by (simp add: applyAction_def inTurn_def Let_def split: sum.splits)

lemma applyAction_Fold:
  "inTurn s pid actor \<Longrightarrow>
   applyAction s pid Fold amt =
     (let s1 = log_add (LogFold (name actor))
                 (upd_player (nat (turnSeat s)) (\<lambda>p. p\<lparr>inHand := False, hasActedThisRound := True\<rparr>) s)
      in if activeCount s1 = 1
         then (case find (\<lambda>i. inHand (players s1 ! i)) [0 ..< length (players s1)] of
                 None \<Rightarrow> Inl TypeError
               | Some wi \<Rightarrow>
                  (let winner = players s1 ! wi;
                       won = pot s1;
                       s2 = resetReveals
                              (s1\<lparr>players := (players s1)[wi := winner\<lparr>stack := stack winner + won\<rparr>],
                                  pot := 0,
                                  message := MsgWinsFolded (name winner),
                                  stage := Showdown,
                                  turnSeat := - 1\<rparr>);
                       s3 = s2\<lparr>revealSeats := set_add (seat winner) (revealSeats s2),
                               lastWinners := [\<lparr>w_seat = seat winner, w_name = name winner,
                                                 w_amount = won, category = None,
                                                 categoryName = catName None\<rparr>]\<rparr>;
                       s4 = log_add (LogWinUncontested (name winner) won) s3
                   in Inr (HandOver (s4\<lparr>pots := buildSidePots s4\<rparr>))))
         else Inr (Applied s1))"
  by (simp add: applyAction_def inTurn_def Let_def)

section \<open>playerAction: refusals and the size of a raise\<close>

lemma commitChips_nothing:
  "commitChips s st a = Inr (pay, s1) \<Longrightarrow> pay \<le> 0 \<Longrightarrow> s1 = s"
  by (auto simp: commitChips_def Let_def split: option.splits if_splits)

lemma rejected_after_commit:
  "(case commitChips s st a of
      Inl e \<Rightarrow> Inl e
    | Inr (pay, s1) \<Rightarrow> if pay \<le> 0 then Inr (Rejected s1) else Inr (Applied (f pay s1)))
     = Inr (Rejected s0) \<Longrightarrow> s0 = s"
  by (auto dest: commitChips_nothing split: sum.splits prod.splits if_splits)

lemma applyAction_Rejected:
  assumes "applyAction s pid kind amt = Inr (Rejected s0)"
  shows "s0 = s"
proof (cases "\<exists>actor. inTurn s pid actor")
  case False
  with assms show ?thesis by (simp add: applyAction_not_inTurn)
next
  case True
  then obtain actor where t: "inTurn s pid actor" by blast
  show ?thesis
  proof (cases kind)
    case Fold
    with assms have "applyAction s pid Fold amt = Inr (Rejected s0)" by simp
    then show ?thesis
      unfolding applyAction_Fold[OF t] Let_def
      by (simp split: if_splits option.splits)
  next
    case Check
    with assms have "applyAction s pid Check amt = Inr (Rejected s0)" by simp
    then show ?thesis
      unfolding applyAction_Check[OF t]
      by (simp split: if_splits)
  next
    case Call
    with assms have "applyAction s pid Call amt = Inr (Rejected s0)" by simp
    then show ?thesis
      unfolding applyAction_Call[OF t] Let_def
      by (auto dest: rejected_after_commit split: if_splits)
  next
    case Bet
    with assms have "applyAction s pid Bet amt = Inr (Rejected s0)" by simp
    then show ?thesis
      unfolding applyAction_Bet[OF t] Let_def
      by (auto dest: rejected_after_commit split: if_splits)
  next
    case Raise
    with assms have "applyAction s pid Raise amt = Inr (Rejected s0)" by simp
    then show ?thesis
      unfolding applyAction_Raise[OF t] Let_def
      by (auto dest: rejected_after_commit split: if_splits)
  qed
qed

lemma playerAction_refused_unchanged:
  "playerAction s pid kind amt = Inr (False, s') \<Longrightarrow> s' = s"
  by (auto simp: playerAction_def dest: applyAction_Rejected
           split: sum.splits applied.splits)

lemma raise_clamped:
  assumes "\<lfloor>case amt of None \<Rightarrow> 0 | Some a \<Rightarrow> a\<rfloor> \<le> currentBet s + bigBlind s"
  shows "playerAction s pid Raise amt
           = playerAction s pid Raise (Some (real_of_int (currentBet s + bigBlind s)))"
proof (cases "\<exists>actor. inTurn s pid actor")
  case False
  then show ?thesis by (simp add: playerAction_def applyAction_not_inTurn)
next
  case True
  then obtain actor where t: "inTurn s pid actor" by blast
  have eq: "max (currentBet s + bigBlind s) \<lfloor>case amt of None \<Rightarrow> 0 | Some a \<Rightarrow> a\<rfloor>
          = max (currentBet s + bigBlind s)
                \<lfloor>case Some (real_of_int (currentBet s + bigBlind s)) of None \<Rightarrow> 0 | Some a \<Rightarrow> a\<rfloor>"
    using assms by simp
  have "applyAction s pid Raise amt
          = applyAction s pid Raise (Some (real_of_int (currentBet s + bigBlind s)))"
    unfolding applyAction_Raise[OF t] eq ..
  then show ?thesis by (simp only: playerAction_def)
qed

lemma commitChips_pays:
  assumes "js_at (players s) st = Some p" and "0 < a" and "0 < stack p"
  shows "\<exists>pay s1. commitChips s st a = Inr (pay, s1) \<and> 0 < pay"
proof -
  have "0 < max 0 (min a (stack p))" using assms(2,3) by simp
  then have "\<not> max 0 (min a (stack p)) \<le> 0" by simp
  then show ?thesis
    using assms(1) by (simp add: commitChips_def Let_def)
qed

lemma raise_applied:
  assumes t: "inTurn s pid actor"
      and seat: "seat actor = nat (turnSeat s)"
      and chips: "0 < stack actor" and bb: "0 < bigBlind s"
      and le: "get0 (streetBets s) (seat actor) \<le> currentBet s"
  shows "\<exists>s1. applyAction s pid Raise amt = Inr (Applied s1)"
proof -
  from t have ai: "nat (turnSeat s) < length (players s)" "actor = players s ! nat (turnSeat s)"
    by (simp_all add: inTurn_def player_at_Some)
  let ?raiseTo = "max (currentBet s + bigBlind s) \<lfloor>case amt of None \<Rightarrow> 0 | Some a \<Rightarrow> a\<rfloor>"
  let ?need = "max 0 (?raiseTo - get0 (streetBets s) (seat actor))"
  have need: "0 < ?need" using bb le by (simp add: max_def)
  have rt: "\<not> ?raiseTo \<le> currentBet s" using bb by (simp add: max_def)
  have "js_at (players s) (seat actor) = Some actor"
    using ai seat by (simp add: js_at_def)
  from commitChips_pays[OF this need chips]
  obtain pay s1 where c: "commitChips s (seat actor) ?need = Inr (pay, s1)" and p: "0 < pay"
    by blast
  have np: "\<not> pay \<le> 0" using p by simp
  show ?thesis
    unfolding applyAction_Raise[OF t] Let_def
    by (simp only: rt c np if_False sum.case prod.case) blast
qed

lemma raise_not_refused:
  assumes "inTurn s pid actor"
      and "seat actor = nat (turnSeat s)"
      and "0 < stack actor" and "0 < bigBlind s"
      and "get0 (streetBets s) (seat actor) \<le> currentBet s"
  shows "playerAction s pid Raise amt \<noteq> Inr (False, s')"
proof -
  from raise_applied[OF assms, of amt] obtain s1 where "applyAction s pid Raise amt = Inr (Applied s1)"
    by blast
  then show ?thesis
    by (simp add: playerAction_def split: sum.splits)
qed

text \<open>In \<open>hand0\<close> Bob, first to act, asks for a raise to 1 while the bet to match is 2.\<close>

definition hand0_bob_raised :: engine where
  "hand0_bob_raised =
     hand0\<lparr>players := (players hand0)[1 := (players hand0 ! 1)\<lparr>stack := 26, hasActedThisRound := True\<rparr>],
            currentBet := 4, pot := 7, turnSeat := 2, lastAggressorSeat := Some 1,
            streetBets := [2, 4, 1], totalBets := [2, 4, 1],
            actionLog := actionLog hand0 @ [LogRaise ''Bob'' 4]\<rparr>"

lemma hand0_bob_raises:
  "playerAction hand0 ''b'' Raise (Some 1) = Inr (True, hand0_bob_raised)"
  unfolding hand0_bob_raised_def hand0_eq
  by (simp add: playerAction_def applyAction_def bettingStage_def player_at_def js_at_def get0_def
                js_set_def commitChips_def reopenRound_def
                upd_player_def log_add_def LOG_LIMIT_def moveTurn_def
                everyoneActedOrAllIn_def nextSeat_def upt_rec Let_def)

lemma hand0_bob_inTurn: "inTurn hand0 ''b'' (players hand0 ! 1)"
  unfolding hand0_eq by (simp add: inTurn_def bettingStage_def player_at_def js_at_def)

lemma commitChips_result:
  assumes "js_at (players s) st = Some p" and "0 < a" and "0 < stack p"
  shows "commitChips s st a =
           Inr (min a (stack p),
                s\<lparr>players := (players s)[st := (if stack p - min a (stack p) = 0
                                                 then p\<lparr>stack := stack p - min a (stack p), isAllIn := True\<rparr>
                                                 else p\<lparr>stack := stack p - min a (stack p)\<rparr>)],
                  pot := pot s + min a (stack p),
                  streetBets := js_set (streetBets s) st (get0 (streetBets s) st + min a (stack p)),
                  totalBets := js_set (totalBets s) st (get0 (totalBets s) st + min a (stack p))\<rparr>)"
proof -
  have m: "max 0 (min a (stack p)) = min a (stack p)" using assms(2,3) by simp
  have "\<not> min a (stack p) \<le> 0" using assms(2,3) by simp
  then show ?thesis
    using assms(1) by (simp add: commitChips_def Let_def m)
qed

lemma get0_js_set: "get0 (js_set xs i v) i = v"
  by (simp add: get0_def js_set_def js_at_def nth_append)

lemma raise_result:
  assumes t: "inTurn s pid actor" and seat: "seat actor = nat (turnSeat s)"
      and tg: "\<not> max (currentBet s + bigBlind s) \<lfloor>case amt of None \<Rightarrow> 0 | Some a \<Rightarrow> a\<rfloor> \<le> currentBet s"
      and py: "\<not> min (max (currentBet s + bigBlind s) \<lfloor>case amt of None \<Rightarrow> 0 | Some a \<Rightarrow> a\<rfloor>
                       - get0 (streetBets s) (seat actor)) (stack actor) \<le> 0"
  shows "\<exists>s1. applyAction s pid Raise amt = Inr (Applied s1)
           \<and> stage s1 = stage s \<and> turnSeat s1 = turnSeat s
           \<and> stack (players s1 ! nat (turnSeat s))
                = stack actor - min (max (currentBet s + bigBlind s) \<lfloor>case amt of None \<Rightarrow> 0 | Some a \<Rightarrow> a\<rfloor>
                                       - get0 (streetBets s) (seat actor)) (stack actor)
           \<and> pot s1 = pot s + min (max (currentBet s + bigBlind s) \<lfloor>case amt of None \<Rightarrow> 0 | Some a \<Rightarrow> a\<rfloor>
                                       - get0 (streetBets s) (seat actor)) (stack actor)
           \<and> get0 (streetBets s1) (seat actor)
                = get0 (streetBets s) (seat actor)
                  + min (max (currentBet s + bigBlind s) \<lfloor>case amt of None \<Rightarrow> 0 | Some a \<Rightarrow> a\<rfloor>
                           - get0 (streetBets s) (seat actor)) (stack actor)
           \<and> currentBet s1
                = max (currentBet s)
                      (get0 (streetBets s) (seat actor)
                       + min (max (currentBet s + bigBlind s) \<lfloor>case amt of None \<Rightarrow> 0 | Some a \<Rightarrow> a\<rfloor>
                                - get0 (streetBets s) (seat actor)) (stack actor))"
proof -
  define target where "target = max (currentBet s + bigBlind s) \<lfloor>case amt of None \<Rightarrow> 0 | Some a \<Rightarrow> a\<rfloor>"
  define contributed where "contributed = get0 (streetBets s) (seat actor)"
  define pay where "pay = min (target - contributed) (stack actor)"
  define ai where "ai = nat (turnSeat s)"
  from t have ai: "ai < length (players s)" "actor = players s ! ai"
    by (simp_all add: inTurn_def player_at_Some ai_def)
  have js: "js_at (players s) (seat actor) = Some actor"
    using ai seat by (simp add: js_at_def ai_def)
  from py have pos: "0 < target - contributed" "0 < stack actor"
    by (simp_all add: target_def contributed_def)
  then have need: "max 0 (target - contributed) = target - contributed" by simp
  define q where "q = (if stack actor - pay = 0 then actor\<lparr>stack := stack actor - pay, isAllIn := True\<rparr>
                       else actor\<lparr>stack := stack actor - pay\<rparr>)"
  define sc where "sc = s\<lparr>players := (players s)[ai := q],
                  pot := pot s + pay,
                  streetBets := js_set (streetBets s) ai (contributed + pay),
                  totalBets := js_set (totalBets s) ai (get0 (totalBets s) ai + pay)\<rparr>"
  have c: "commitChips s (seat actor) (max 0 (target - contributed)) = Inr (pay, sc)"
    unfolding need using commitChips_result[OF js pos]
    by (simp add: sc_def q_def pay_def seat ai_def contributed_def)
  have np: "\<not> pay \<le> 0" using py by (simp add: pay_def target_def contributed_def)
  define s2 where "s2 = (if get0 (streetBets sc) (seat actor) > currentBet sc
                          then reopenRound (seat actor)
                                 (sc\<lparr>currentBet := get0 (streetBets sc) (seat actor),
                                     minRaise := bigBlind sc, lastAggressorSeat := Some (seat actor)\<rparr>)
                          else sc)"
  define s1 where "s1 = log_add (LogRaise (name actor)
                           (currentBet (upd_player ai (\<lambda>p. p\<lparr>hasActedThisRound := True\<rparr>) s2)))
                         (upd_player ai (\<lambda>p. p\<lparr>hasActedThisRound := True\<rparr>) s2)"
  have a: "applyAction s pid Raise amt = Inr (Applied s1)"
    unfolding applyAction_Raise[OF t] Let_def target_def[symmetric] contributed_def[symmetric]
    using tg c np
    by (simp add: target_def[symmetric] s1_def s2_def ai_def)
  have sb: "get0 (streetBets sc) (seat actor) = contributed + pay"
    by (simp add: sc_def seat ai_def[symmetric] get0_js_set)
  have cb: "currentBet sc = currentBet s" "pot sc = pot s + pay" "stage sc = stage s"
    "turnSeat sc = turnSeat s"
    by (simp_all add: sc_def)
  have f2a: "currentBet s2 = max (currentBet s) (contributed + pay)" "pot s2 = pot s + pay"
    "streetBets s2 = streetBets sc" "stage s2 = stage s" "turnSeat s2 = turnSeat s"
    by (auto simp: s2_def sb cb reopenRound_def)
  have psc: "length (players sc) = length (players s)" "stack (players sc ! ai) = stack actor - pay"
    using ai(1) by (simp_all add: sc_def q_def)
  have f2b: "length (players s2) = length (players s)" "stack (players s2 ! ai) = stack actor - pay"
    using ai(1) psc by (auto simp: s2_def reopenRound_def)
  note f2 = f2a f2b
  have f1: "currentBet s1 = currentBet s2" "pot s1 = pot s2" "streetBets s1 = streetBets s2"
    "stage s1 = stage s2" "turnSeat s1 = turnSeat s2"
    "stack (players s1 ! ai) = stack (players s2 ! ai)"
    using ai(1) f2(6) by (simp_all add: s1_def upd_player_def)
  show ?thesis
    using a f1 f2 sb
    unfolding target_def[symmetric] contributed_def[symmetric] pay_def[symmetric] ai_def[symmetric]
    by (intro exI[of _ s1]) simp
qed

lemma raise_refused:
  assumes t: "inTurn s pid actor" and seat: "seat actor = nat (turnSeat s)"
      and r: "max (currentBet s + bigBlind s) \<lfloor>case amt of None \<Rightarrow> 0 | Some a \<Rightarrow> a\<rfloor> \<le> currentBet s
              \<or> min (max (currentBet s + bigBlind s) \<lfloor>case amt of None \<Rightarrow> 0 | Some a \<Rightarrow> a\<rfloor>
                       - get0 (streetBets s) (seat actor)) (stack actor) \<le> 0"
  shows "playerAction s pid Raise amt = Inr (False, s)"
proof -
  define target where "target = max (currentBet s + bigBlind s) \<lfloor>case amt of None \<Rightarrow> 0 | Some a \<Rightarrow> a\<rfloor>"
  define contributed where "contributed = get0 (streetBets s) (seat actor)"
  from t have ai: "nat (turnSeat s) < length (players s)" "actor = players s ! nat (turnSeat s)"
    by (simp_all add: inTurn_def player_at_Some)
  have js: "js_at (players s) (seat actor) = Some actor"
    using ai seat by (simp add: js_at_def)
  have "applyAction s pid Raise amt = Inr (Rejected s)"
  proof (cases "target \<le> currentBet s")
    case True
    then show ?thesis
      unfolding applyAction_Raise[OF t] Let_def target_def by simp
  next
    case False
    with r have "min (target - contributed) (stack actor) \<le> 0"
      unfolding target_def[symmetric] contributed_def[symmetric] by blast
    then have "max 0 (min (max 0 (target - contributed)) (stack actor)) \<le> 0" by auto
    then have "commitChips s (seat actor) (max 0 (target - contributed)) = Inr (0, s)"
      using js by (simp add: commitChips_def Let_def)
    with False show ?thesis
      unfolding applyAction_Raise[OF t] Let_def target_def[symmetric] contributed_def[symmetric]
      by simp
  qed
  then show ?thesis by (simp add: playerAction_def)
qed

text \<open>
  Claim C3, as stated, fails: a raise whose requested target (1) is below
  \<open>currentBet + minRaise\<close> (2 + 2) is accepted and changes the table.
\<close>

theorem raise_below_minimum_counterexample:
  "inTurn hand0 ''b'' (players hand0 ! 1)
   \<and> \<lfloor>1 :: real\<rfloor> < currentBet hand0 + minRaise hand0
   \<and> playerAction hand0 ''b'' Raise (Some 1) = Inr (True, hand0_bob_raised)
   \<and> currentBet hand0_bob_raised = 4
   \<and> hand0_bob_raised \<noteq> hand0"
proof -
  have "currentBet hand0_bob_raised \<noteq> currentBet hand0"
    by (simp add: hand0_bob_raised_def hand0_eq)
  then have "hand0_bob_raised \<noteq> hand0" by auto
  moreover have "\<lfloor>1 :: real\<rfloor> < currentBet hand0 + minRaise hand0"
    by (simp add: hand0_eq)
  moreover have "currentBet hand0_bob_raised = 4" by (simp add: hand0_bob_raised_def)
  ultimately show ?thesis using hand0_bob_inTurn hand0_bob_raises by blast
qed

text \<open>
  Claim C3, amended. A raise is not refused for asking too little: the target of a raise is
  \<open>max(currentBet + bigBlind, floor(amount))\<close> (the minimum raise of this engine is always
  the big blind), so a requested target of at most \<open>currentBet + bigBlind\<close> is treated exactly
  as the request \<open>currentBet + bigBlind\<close>. A caller who fails the guard of \<open>playerAction\<close> is
  refused. For the player in turn (whose seat is the turn seat, as it is when seats are array
  positions) the raise is refused exactly when the target does not
  exceed \<open>currentBet\<close> or nothing can be paid (\<open>min(target - contribution, stack) \<le> 0\<close>);
  otherwise it is applied: the player pays \<open>pay = min(target - contribution, stack)\<close>, the
  pot grows by \<open>pay\<close>, the player's street contribution becomes \<open>contribution + pay\<close> and
  \<open>currentBet\<close> becomes \<open>max(currentBet, contribution + pay)\<close>, which is the target itself when
  the stack covers it; the turn then moves on (to the next seat when the round stays open).
  The player in turn who has chips is never refused a raise (the big blind being positive and
  the player's street contribution at most \<open>currentBet\<close>). Whenever a raise is refused, the
  table state is unchanged.
\<close>

theorem raise_clamped_to_minimum:
  "(playerAction s pid Raise amt = Inr (False, s') \<longrightarrow> s' = s)
   \<and> (\<lfloor>case amt of None \<Rightarrow> 0 | Some a \<Rightarrow> a\<rfloor> \<le> currentBet s + bigBlind s \<longrightarrow>
        playerAction s pid Raise amt
          = playerAction s pid Raise (Some (real_of_int (currentBet s + bigBlind s))))
   \<and> (inTurn s pid actor \<and> seat actor = nat (turnSeat s) \<and> 0 < stack actor \<and> 0 < bigBlind s
        \<and> get0 (streetBets s) (seat actor) \<le> currentBet s \<longrightarrow>
        playerAction s pid Raise amt \<noteq> Inr (False, s))
   \<and> (\<not> (\<exists>a. inTurn s pid a) \<longrightarrow> playerAction s pid Raise amt = Inr (False, s))
   \<and> (inTurn s pid actor \<and> seat actor = nat (turnSeat s) \<longrightarrow>
        (let contributed = get0 (streetBets s) (seat actor);
             target = max (currentBet s + bigBlind s) \<lfloor>case amt of None \<Rightarrow> 0 | Some a \<Rightarrow> a\<rfloor>;
             pay = min (target - contributed) (stack actor)
         in if target \<le> currentBet s \<or> pay \<le> 0
            then playerAction s pid Raise amt = Inr (False, s)
            else (\<exists>s1. applyAction s pid Raise amt = Inr (Applied s1)
                    \<and> playerAction s pid Raise amt
                          = (case moveTurn s1 of Inl e \<Rightarrow> Inl e | Inr s2 \<Rightarrow> Inr (True, s2))
                    \<and> (\<not> everyoneActedOrAllIn s1 \<longrightarrow>
                          playerAction s pid Raise amt
                            = Inr (True, s1\<lparr>turnSeat := int (nextSeat s1 (nat (turnSeat s)))\<rparr>))
                    \<and> stack (players s1 ! nat (turnSeat s)) = stack actor - pay
                    \<and> pot s1 = pot s + pay
                    \<and> get0 (streetBets s1) (seat actor) = contributed + pay
                    \<and> currentBet s1 = max (currentBet s) (contributed + pay)
                    \<and> (target - contributed \<le> stack actor \<longrightarrow> currentBet s1 = target))))"
proof (intro conjI impI)
  assume "playerAction s pid Raise amt = Inr (False, s')"
  then show "s' = s" by (rule playerAction_refused_unchanged)
next
  assume "\<lfloor>case amt of None \<Rightarrow> 0 | Some a \<Rightarrow> a\<rfloor> \<le> currentBet s + bigBlind s"
  then show "playerAction s pid Raise amt
          = playerAction s pid Raise (Some (real_of_int (currentBet s + bigBlind s)))"
    by (rule raise_clamped)
next
  assume "inTurn s pid actor \<and> seat actor = nat (turnSeat s) \<and> 0 < stack actor \<and> 0 < bigBlind s
        \<and> get0 (streetBets s) (seat actor) \<le> currentBet s"
  then show "playerAction s pid Raise amt \<noteq> Inr (False, s)"
    using raise_not_refused[of s pid actor amt s] by blast
next
  assume "\<not> (\<exists>a. inTurn s pid a)"
  then show "playerAction s pid Raise amt = Inr (False, s)"
    by (simp add: playerAction_def applyAction_not_inTurn)
next
  assume h: "inTurn s pid actor \<and> seat actor = nat (turnSeat s)"
  then have t: "inTurn s pid actor" and seat: "seat actor = nat (turnSeat s)" by simp_all
  define contributed where "contributed = get0 (streetBets s) (seat actor)"
  define target where "target = max (currentBet s + bigBlind s) \<lfloor>case amt of None \<Rightarrow> 0 | Some a \<Rightarrow> a\<rfloor>"
  define pay where "pay = min (target - contributed) (stack actor)"
  have "if target \<le> currentBet s \<or> pay \<le> 0
            then playerAction s pid Raise amt = Inr (False, s)
            else (\<exists>s1. applyAction s pid Raise amt = Inr (Applied s1)
                    \<and> playerAction s pid Raise amt
                          = (case moveTurn s1 of Inl e \<Rightarrow> Inl e | Inr s2 \<Rightarrow> Inr (True, s2))
                    \<and> (\<not> everyoneActedOrAllIn s1 \<longrightarrow>
                          playerAction s pid Raise amt
                            = Inr (True, s1\<lparr>turnSeat := int (nextSeat s1 (nat (turnSeat s)))\<rparr>))
                    \<and> stack (players s1 ! nat (turnSeat s)) = stack actor - pay
                    \<and> pot s1 = pot s + pay
                    \<and> get0 (streetBets s1) (seat actor) = contributed + pay
                    \<and> currentBet s1 = max (currentBet s) (contributed + pay)
                    \<and> (target - contributed \<le> stack actor \<longrightarrow> currentBet s1 = target))"
  proof (cases "target \<le> currentBet s \<or> pay \<le> 0")
    case True
    then have "playerAction s pid Raise amt = Inr (False, s)"
      unfolding target_def pay_def contributed_def by (rule raise_refused[OF t seat])
    with True show ?thesis by simp
  next
    case False
    then have tg: "\<not> target \<le> currentBet s" and py: "\<not> pay \<le> 0" by simp_all
    from raise_result[OF t seat tg[unfolded target_def] py[unfolded pay_def target_def contributed_def]]
    obtain s1 where a: "applyAction s pid Raise amt = Inr (Applied s1)"
      and st: "stage s1 = stage s" "turnSeat s1 = turnSeat s"
      and f: "stack (players s1 ! nat (turnSeat s)) = stack actor - pay"
             "pot s1 = pot s + pay"
             "get0 (streetBets s1) (seat actor) = contributed + pay"
             "currentBet s1 = max (currentBet s) (contributed + pay)"
      unfolding target_def[symmetric] contributed_def[symmetric] pay_def[symmetric] by blast
    from t have bs: "bettingStage (stage s1)" by (simp add: inTurn_def st)
    have p: "playerAction s pid Raise amt
               = (case moveTurn s1 of Inl e \<Rightarrow> Inl e | Inr s2 \<Rightarrow> Inr (True, s2))"
      using a by (simp add: playerAction_def)
    have o: "playerAction s pid Raise amt
               = Inr (True, s1\<lparr>turnSeat := int (nextSeat s1 (nat (turnSeat s)))\<rparr>)"
      if "\<not> everyoneActedOrAllIn s1"
      unfolding p using that bs by (simp add: moveTurn_def st)
    have e: "currentBet s1 = target" if "target - contributed \<le> stack actor"
    proof -
      from that have "pay = target - contributed" by (simp add: pay_def)
      with f(4) tg show ?thesis by simp
    qed
    from False a p o f e show ?thesis by auto
  qed
  then show "let contributed = get0 (streetBets s) (seat actor);
             target = max (currentBet s + bigBlind s) \<lfloor>case amt of None \<Rightarrow> 0 | Some a \<Rightarrow> a\<rfloor>;
             pay = min (target - contributed) (stack actor)
         in if target \<le> currentBet s \<or> pay \<le> 0
            then playerAction s pid Raise amt = Inr (False, s)
            else (\<exists>s1. applyAction s pid Raise amt = Inr (Applied s1)
                    \<and> playerAction s pid Raise amt
                          = (case moveTurn s1 of Inl e \<Rightarrow> Inl e | Inr s2 \<Rightarrow> Inr (True, s2))
                    \<and> (\<not> everyoneActedOrAllIn s1 \<longrightarrow>
                          playerAction s pid Raise amt
                            = Inr (True, s1\<lparr>turnSeat := int (nextSeat s1 (nat (turnSeat s)))\<rparr>))
                    \<and> stack (players s1 ! nat (turnSeat s)) = stack actor - pay
                    \<and> pot s1 = pot s + pay
                    \<and> get0 (streetBets s1) (seat actor) = contributed + pay
                    \<and> currentBet s1 = max (currentBet s) (contributed + pay)
                    \<and> (target - contributed \<le> stack actor \<longrightarrow> currentBet s1 = target))"
    unfolding Let_def contributed_def target_def pay_def .
qed

theorem raise_clamped_to_minimum_witness:
  "playerAction hand0 ''a'' Raise (Some 10) = Inr (False, hand0)
   \<and> \<not> (\<exists>a. inTurn hand0 ''a'' a)
   \<and> \<lfloor>case Some (1 :: real) of None \<Rightarrow> 0 | Some a \<Rightarrow> a\<rfloor> \<le> currentBet hand0 + bigBlind hand0
   \<and> playerAction hand0 ''b'' Raise (Some 1) = playerAction hand0 ''b'' Raise (Some 4)
   \<and> inTurn hand0 ''b'' (players hand0 ! 1) \<and> seat (players hand0 ! 1) = nat (turnSeat hand0)
   \<and> 0 < stack (players hand0 ! 1) \<and> 0 < bigBlind hand0
   \<and> get0 (streetBets hand0) (seat (players hand0 ! 1)) \<le> currentBet hand0
   \<and> playerAction hand0 ''b'' Raise (Some 1) \<noteq> Inr (False, hand0)
   \<and> (\<exists>s1. applyAction hand0 ''b'' Raise (Some 1) = Inr (Applied s1)
          \<and> playerAction hand0 ''b'' Raise (Some 1)
               = (case moveTurn s1 of Inl e \<Rightarrow> Inl e | Inr s2 \<Rightarrow> Inr (True, s2))
          \<and> stack (players s1 ! 1) = 26 \<and> pot s1 = 7 \<and> get0 (streetBets s1) 1 = 4
          \<and> currentBet s1 = 4)
   \<and> inTurn (hand0\<lparr>bigBlind := 0\<rparr>) ''b'' (players hand0 ! 1)
   \<and> playerAction (hand0\<lparr>bigBlind := 0\<rparr>) ''b'' Raise None = Inr (False, hand0\<lparr>bigBlind := 0\<rparr>)"
proof -
  have r: "playerAction hand0 ''a'' Raise (Some 10) = Inr (False, hand0)"
    unfolding hand0_eq
    by (simp add: playerAction_def applyAction_def bettingStage_def player_at_def js_at_def)
  have na: "\<not> (\<exists>a. inTurn hand0 ''a'' a)"
    unfolding hand0_eq by (simp add: inTurn_def player_at_def js_at_def)
  have f: "\<lfloor>case Some (1 :: real) of None \<Rightarrow> 0 | Some a \<Rightarrow> a\<rfloor> \<le> currentBet hand0 + bigBlind hand0"
    by (simp add: hand0_eq)
  have h: "seat (players hand0 ! 1) = nat (turnSeat hand0)" "0 < stack (players hand0 ! 1)"
    "0 < bigBlind hand0" "get0 (streetBets hand0) (seat (players hand0 ! 1)) \<le> currentBet hand0"
    unfolding hand0_eq by (simp_all add: get0_def js_at_def)
  have c: "real_of_int (currentBet hand0 + bigBlind hand0) = 4" by (simp add: hand0_eq)
  have v: "get0 (streetBets hand0) (seat (players hand0 ! 1)) = 0" "currentBet hand0 = 2"
    "bigBlind hand0 = 2" "stack (players hand0 ! 1) = 30" "pot hand0 = 3" "nat (turnSeat hand0) = 1"
    "seat (players hand0 ! 1) = 1" "get0 (streetBets hand0) 1 = 0" "get0 (streetBets hand0) (Suc 0) = 0"
    unfolding hand0_eq by (simp_all add: get0_def js_at_def)
  have z: "inTurn (hand0\<lparr>bigBlind := 0\<rparr>) ''b'' (players hand0 ! 1)"
    "seat (players hand0 ! 1) = nat (turnSeat (hand0\<lparr>bigBlind := 0\<rparr>))"
    "currentBet (hand0\<lparr>bigBlind := 0\<rparr>) = 2" "bigBlind (hand0\<lparr>bigBlind := 0\<rparr>) = 0"
    unfolding hand0_eq by (simp_all add: inTurn_def bettingStage_def player_at_def js_at_def)
  note a = raise_clamped_to_minimum[where s = hand0 and pid = "''a''" and amt = "Some 10" and s' = hand0]
  note b = raise_clamped_to_minimum[where s = hand0 and pid = "''b''" and amt = "Some 1"
             and actor = "players hand0 ! 1"]
  note d = raise_clamped_to_minimum[where s = "hand0\<lparr>bigBlind := 0\<rparr>" and pid = "''b''" and amt = None
             and actor = "players hand0 ! 1"]
  from a na have 1: "playerAction hand0 ''a'' Raise (Some 10) = Inr (False, hand0)" by blast
  from b f c have 2: "playerAction hand0 ''b'' Raise (Some 1) = playerAction hand0 ''b'' Raise (Some 4)"
    by simp
  from b hand0_bob_inTurn h have 3: "playerAction hand0 ''b'' Raise (Some 1) \<noteq> Inr (False, hand0)"
    by blast
  from b hand0_bob_inTurn h(1)
  have "let contributed = get0 (streetBets hand0) (seat (players hand0 ! 1));
             target = max (currentBet hand0 + bigBlind hand0) \<lfloor>case Some (1::real) of None \<Rightarrow> 0 | Some a \<Rightarrow> a\<rfloor>;
             pay = min (target - contributed) (stack (players hand0 ! 1))
         in if target \<le> currentBet hand0 \<or> pay \<le> 0
            then playerAction hand0 ''b'' Raise (Some 1) = Inr (False, hand0)
            else (\<exists>s1. applyAction hand0 ''b'' Raise (Some 1) = Inr (Applied s1)
                    \<and> playerAction hand0 ''b'' Raise (Some 1)
                          = (case moveTurn s1 of Inl e \<Rightarrow> Inl e | Inr s2 \<Rightarrow> Inr (True, s2))
                    \<and> (\<not> everyoneActedOrAllIn s1 \<longrightarrow>
                          playerAction hand0 ''b'' Raise (Some 1)
                            = Inr (True, s1\<lparr>turnSeat := int (nextSeat s1 (nat (turnSeat hand0)))\<rparr>))
                    \<and> stack (players s1 ! nat (turnSeat hand0)) = stack (players hand0 ! 1) - pay
                    \<and> pot s1 = pot hand0 + pay
                    \<and> get0 (streetBets s1) (seat (players hand0 ! 1)) = contributed + pay
                    \<and> currentBet s1 = max (currentBet hand0) (contributed + pay)
                    \<and> (target - contributed \<le> stack (players hand0 ! 1) \<longrightarrow> currentBet s1 = target))"
    by blast
  then have 4: "\<exists>s1. applyAction hand0 ''b'' Raise (Some 1) = Inr (Applied s1)
          \<and> playerAction hand0 ''b'' Raise (Some 1)
               = (case moveTurn s1 of Inl e \<Rightarrow> Inl e | Inr s2 \<Rightarrow> Inr (True, s2))
          \<and> stack (players s1 ! 1) = 26 \<and> pot s1 = 7 \<and> get0 (streetBets s1) 1 = 4
          \<and> currentBet s1 = 4"
    unfolding Let_def v by (auto simp: v)
  from d[THEN conjunct2, THEN conjunct2, THEN conjunct2, THEN conjunct2] z(1,2)
  have 5: "playerAction (hand0\<lparr>bigBlind := 0\<rparr>) ''b'' Raise None = Inr (False, hand0\<lparr>bigBlind := 0\<rparr>)"
    by (simp add: Let_def z(3,4))
  from 1 na f 2 hand0_bob_inTurn h 3 4 z(1) 5 show ?thesis by blast
qed

section \<open>Round closure\<close>

text \<open>
  The round-closure predicate in the words of the specification: every player in hand and
  not all-in has acted this street and has a street contribution that matches (is not below)
  \<open>currentBet\<close>.
\<close>

definition round_closed :: "engine \<Rightarrow> bool" where
  "round_closed s \<longleftrightarrow>
     (\<forall>p \<in> set (players s). inHand p \<and> \<not> isAllIn p \<longrightarrow>
        hasActedThisRound p \<and> currentBet s \<le> get0 (streetBets s) (seat p))"

text \<open>A seat that can still act: occupied, in hand and not all-in.\<close>

definition activeSeat :: "engine \<Rightarrow> nat \<Rightarrow> bool" where
  "activeSeat s i \<longleftrightarrow> i < length (players s) \<and> inHand (players s ! i) \<and> \<not> isAllIn (players s ! i)"

lemma everyoneActedOrAllIn_iff: "everyoneActedOrAllIn s \<longleftrightarrow> round_closed s"
  by (auto simp: everyoneActedOrAllIn_def round_closed_def list_all_iff)

lemma seat_reached:
  assumes a: "a < n"
  shows "\<exists>k. 1 \<le> k \<and> k \<le> n \<and> (from + k) mod n = (a :: nat)"
proof -
  let ?r = "from mod n"
  have r: "?r < n" using a by simp
  show ?thesis
  proof (cases "?r < a")
    case True
    have "(from + (a - ?r)) mod n = (?r + (a - ?r)) mod n" by (simp add: mod_add_left_eq)
    also have "\<dots> = a" using True a by simp
    finally have "(from + (a - ?r)) mod n = a" .
    moreover have "1 \<le> a - ?r" "a - ?r \<le> n" using True a by arith+
    ultimately show ?thesis by blast
  next
    case False
    have "(from + (a + n - ?r)) mod n = (?r + (a + n - ?r)) mod n" by (simp add: mod_add_left_eq)
    also have "\<dots> = (a + n) mod n" using r by simp
    also have "\<dots> = a" using a by simp
    finally have "(from + (a + n - ?r)) mod n = a" .
    moreover have "1 \<le> a + n - ?r" "a + n - ?r \<le> n" using False r by arith+
    ultimately show ?thesis by blast
  qed
qed

lemma nextSeat_spec:
  assumes act: "activeSeat s a"
  shows "\<exists>d. 1 \<le> d \<and> d \<le> length (players s)
           \<and> nextSeat s from = (from + d) mod length (players s)
           \<and> activeSeat s (nextSeat s from)
           \<and> (\<forall>k. 1 \<le> k \<and> k < d \<longrightarrow> \<not> activeSeat s ((from + k) mod length (players s)))"
proof -
  let ?n = "length (players s)"
  let ?P = "\<lambda>st. inHand (players s ! st) \<and> \<not> isAllIn (players s ! st)"
  let ?xs = "map (\<lambda>i. (from + i) mod ?n) [1 ..< ?n + 1]"
  from act have a: "a < ?n" "?P a" by (simp_all add: activeSeat_def)
  then have n: "0 < ?n" by (cases "players s") simp_all
  from seat_reached[OF a(1), of "from"] obtain k where k: "1 \<le> k" "k \<le> ?n" "(from + k) mod ?n = a"
    by blast
  from k(1,2) have "k \<in> set [1 ..< ?n + 1]" by (simp del: upt_Suc)
  then have "(from + k) mod ?n \<in> set ?xs" unfolding set_map by (rule imageI)
  then have "a \<in> set ?xs" unfolding k(3) .
  with a(2) have "find ?P ?xs \<noteq> None" by (auto simp: find_None_iff)
  then obtain st where f: "find ?P ?xs = Some st" by auto
  then obtain i where i: "i < length ?xs" "?P (?xs ! i)" "st = ?xs ! i" "\<forall>j < i. \<not> ?P (?xs ! j)"
    unfolding find_Some_iff by blast
  have len: "length ?xs = ?n" by (simp del: upt_Suc)
  from i(1) have il: "i < ?n" unfolding len .
  have nth: "?xs ! j = (from + (1 + j)) mod ?n" if "j < ?n" for j
    using that by (simp add: nth_map_upt del: upt_Suc)
  have ns: "nextSeat s from = st" using f by (simp add: nextSeat_def Let_def)
  have lt: "(from + (1 + i)) mod ?n < ?n" using n by simp
  show ?thesis
  proof (intro exI[of _ "1 + i"] conjI allI impI)
    show "1 \<le> 1 + i" by simp
    show "1 + i \<le> ?n" using il by simp
    show "nextSeat s from = (from + (1 + i)) mod ?n" using ns i(3) nth[OF il] by simp
    show "activeSeat s (nextSeat s from)"
      using ns i(2,3) nth[OF il] lt by (simp add: activeSeat_def)
    fix k assume k: "1 \<le> k \<and> k < 1 + i"
    then have "k - 1 < i" by arith
    with i(4) have "\<not> ?P (?xs ! (k - 1))" by blast
    moreover have "k - 1 < ?n" "1 + (k - 1) = k" using k il by arith+
    then have "?xs ! (k - 1) = (from + k) mod ?n" using nth[of "k - 1"] by simp
    ultimately show "\<not> activeSeat s ((from + k) mod ?n)" by (simp add: activeSeat_def)
  qed
qed

lemma round_open_has_active:
  assumes "\<not> round_closed s"
  shows "\<exists>a. activeSeat s a"
proof -
  from assms obtain p where "p \<in> set (players s)" "inHand p" "\<not> isAllIn p"
    by (auto simp: round_closed_def)
  then obtain a where "a < length (players s)" "players s ! a = p" by (auto simp: in_set_conv_nth)
  with \<open>inHand p\<close> \<open>\<not> isAllIn p\<close> show ?thesis by (auto simp: activeSeat_def)
qed

lemma commitChips_frame:
  assumes "commitChips s st a = Inr (pay, s1)"
  shows "stage s1 = stage s" "deck s1 = deck s" "turnSeat s1 = turnSeat s"
        "currentBet s1 = currentBet s" "bigBlind s1 = bigBlind s" "community s1 = community s"
        "dealerSeat s1 = dealerSeat s" "length (players s1) = length (players s)"
        "map seat (players s1) = map seat (players s)"
        "map inHand (players s1) = map inHand (players s)"
        "map hole (players s1) = map hole (players s)"
  using assms
  by (auto simp: commitChips_def Let_def js_at_def map_update list_update_same_conv
           split: option.splits if_splits)

lemma upd_player_fields [simp]:
  "stage (upd_player i f s) = stage s" "deck (upd_player i f s) = deck s"
  "turnSeat (upd_player i f s) = turnSeat s" "currentBet (upd_player i f s) = currentBet s"
  "bigBlind (upd_player i f s) = bigBlind s" "pot (upd_player i f s) = pot s"
  "streetBets (upd_player i f s) = streetBets s" "totalBets (upd_player i f s) = totalBets s"
  "length (players (upd_player i f s)) = length (players s)"
  "community (upd_player i f s) = community s" "dealerSeat (upd_player i f s) = dealerSeat s"
  by (simp_all add: upd_player_def)

lemma reopenRound_fields [simp]:
  "stage (reopenRound x s) = stage s" "deck (reopenRound x s) = deck s"
  "turnSeat (reopenRound x s) = turnSeat s" "currentBet (reopenRound x s) = currentBet s"
  "bigBlind (reopenRound x s) = bigBlind s" "pot (reopenRound x s) = pot s"
  "streetBets (reopenRound x s) = streetBets s" "totalBets (reopenRound x s) = totalBets s"
  "length (players (reopenRound x s)) = length (players s)"
  "community (reopenRound x s) = community s" "dealerSeat (reopenRound x s) = dealerSeat s"
  by (simp_all add: reopenRound_def)

text \<open>What an applied action leaves alone.\<close>

lemma applied_after_commit:
  assumes "(case commitChips s st a of
              Inl e \<Rightarrow> Inl e
            | Inr (pay, sc) \<Rightarrow> if pay \<le> 0 then Inr (Rejected sc) else Inr (Applied (f pay sc)))
           = Inr (Applied s1)"
  shows "\<exists>pay sc. commitChips s st a = Inr (pay, sc) \<and> 0 < pay \<and> s1 = f pay sc"
  using assms by (auto split: sum.splits prod.splits if_splits)

lemma applyAction_Applied_frame:
  assumes "applyAction s pid kind amt = Inr (Applied s1)"
  shows "bettingStage (stage s) \<and> stage s1 = stage s \<and> deck s1 = deck s
         \<and> turnSeat s1 = turnSeat s \<and> length (players s1) = length (players s)"
proof (cases "\<exists>actor. inTurn s pid actor")
  case False
  with assms show ?thesis by (simp add: applyAction_not_inTurn)
next
  case True
  then obtain actor where t: "inTurn s pid actor" by blast
  then have b: "bettingStage (stage s)" by (simp add: inTurn_def)
  show ?thesis
  proof (cases kind)
    case Fold
    with assms have "applyAction s pid Fold amt = Inr (Applied s1)" by simp
    then show ?thesis
      unfolding applyAction_Fold[OF t] Let_def
      using b by (auto split: if_splits option.splits)
  next
    case Check
    with assms have "applyAction s pid Check amt = Inr (Applied s1)" by simp
    then show ?thesis
      unfolding applyAction_Check[OF t]
      using b by (auto split: if_splits)
  next
    case Call
    with assms have "applyAction s pid Call amt = Inr (Applied s1)" by simp
    then show ?thesis
      unfolding applyAction_Call[OF t] Let_def
      using b by (auto dest!: applied_after_commit simp: commitChips_frame split: if_splits)
  next
    case Bet
    with assms have "applyAction s pid Bet amt = Inr (Applied s1)" by simp
    then show ?thesis
      unfolding applyAction_Bet[OF t] Let_def
      using b by (auto dest!: applied_after_commit simp: commitChips_frame split: if_splits)
  next
    case Raise
    with assms have "applyAction s pid Raise amt = Inr (Applied s1)" by simp
    then show ?thesis
      unfolding applyAction_Raise[OF t] Let_def
      using b by (auto dest!: applied_after_commit simp: commitChips_frame split: if_splits)
  qed
qed

text \<open>The showdown changes stacks only.\<close>

lemma map_stack_update:
  assumes "\<And>p x. g (p\<lparr>stack := x\<rparr>) = g p"
  shows "map g (ps[i := (ps ! i)\<lparr>stack := v\<rparr>]) = map g ps"
proof (cases "i < length ps")
  case True
  then show ?thesis by (simp add: map_update assms list_update_same_conv)
next
  case False
  then have "length ps \<le> i" by arith
  then have "ps[i := (ps ! i)\<lparr>stack := v\<rparr>] = ps" by (rule list_update_beyond)
  then show ?thesis by (rule arg_cong)
qed

lemma creditStacks_map:
  assumes "\<And>p x. g (p\<lparr>stack := x\<rparr>) = g p"
  shows "map g (creditStacks won ps) = map g ps"
proof (induction won arbitrary: ps)
  case Nil
  show ?case by (simp add: creditStacks_def)
next
  case (Cons w won)
  obtain st amt where w: "w = (st, amt)" by (cases w)
  have "creditStacks (w # won) ps = creditStacks won (ps[st := (ps ! st)\<lparr>stack := stack (ps ! st) + amt\<rparr>])"
    by (simp add: creditStacks_def w)
  moreover have "map g (ps[st := (ps ! st)\<lparr>stack := stack (ps ! st) + amt\<rparr>]) = map g ps"
    by (rule map_stack_update[OF assms])
  ultimately show ?case using Cons.IH by simp
qed

lemma resolveShowdown_stage: "stage (resolveShowdown s) = Showdown"
  by (simp add: resolveShowdown_def Let_def)

lemma resolveShowdown_map:
  assumes "\<And>p x. g (p\<lparr>stack := x\<rparr>) = g p"
  shows "map g (players (resolveShowdown s)) = map g (players s)"
proof (cases "length (contendersOf (players s)) = 1")
  case True
  let ?wi = "hd (contendersOf (players s))"
  have "map g ((players s)[?wi := (players s ! ?wi)\<lparr>stack := stack (players s ! ?wi) + pot s\<rparr>])
          = map g (players s)"
    by (rule map_stack_update[OF assms])
  with True show ?thesis
    by (simp add: resolveShowdown_def Let_def resetReveals_def)
next
  case False
  then show ?thesis
    by (simp add: resolveShowdown_def Let_def resetReveals_def creditStacks_map[OF assms])
qed

lemma advanceStage_changes_stage:
  assumes "bettingStage (stage s)" and "advanceStage s = Inr s2"
  shows "stage s2 \<noteq> stage s"
  using assms
  by (cases "stage s")
     (auto simp: advanceStage_def bettingStage_def Let_def resolveShowdown_stage
           split: list.splits)

lemma advanceStage_acted:
  assumes "advanceStage s = Inr s2"
  shows "\<forall>p \<in> set (players s2). \<not> hasActedThisRound p"
proof -
  let ?s1 = "s\<lparr>players := map (\<lambda>p. p\<lparr>hasActedThisRound := False\<rparr>) (players s),
               currentBet := 0, minRaise := bigBlind s,
               streetBets := replicate (length (players s)) 0, stage := Showdown\<rparr>"
  have r: "\<forall>p \<in> set (players (resolveShowdown ?s1)). \<not> hasActedThisRound p"
  proof -
    have "map hasActedThisRound (players (resolveShowdown ?s1)) = map hasActedThisRound (players ?s1)"
      by (rule resolveShowdown_map) simp
    then have "set (map hasActedThisRound (players (resolveShowdown ?s1))) \<subseteq> {False}"
      by auto
    then show ?thesis by auto
  qed
  show ?thesis
    using assms r
    by (cases "stage s")
       (auto simp: advanceStage_def Let_def split: list.splits)
qed

lemma advanceStage_returns:
  assumes "stage s = Preflop \<longrightarrow> 4 \<le> length (deck s)"
      and "stage s = Flop \<or> stage s = Turn \<longrightarrow> 2 \<le> length (deck s)"
  shows "\<exists>s2. advanceStage s = Inr s2"
proof (cases "stage s")
  case Preflop
  with assms have "4 \<le> length (rev (deck s))" by simp
  then obtain b f1 f2 f3 rest where "rev (deck s) = b # f1 # f2 # f3 # rest"
    by (cases "rev (deck s)" rule: list.exhaust;
        simp; rename_tac x xs; case_tac xs; simp; rename_tac y ys; case_tac ys; simp;
        rename_tac z zs; case_tac zs; simp)
  with Preflop show ?thesis by (simp add: advanceStage_def Let_def)
next
  case Flop
  with assms have "2 \<le> length (rev (deck s))" by simp
  then obtain b t rest where "rev (deck s) = b # t # rest"
    by (cases "rev (deck s)" rule: list.exhaust; simp; rename_tac x xs; case_tac xs; simp)
  with Flop show ?thesis by (simp add: advanceStage_def Let_def)
next
  case Turn
  with assms have "2 \<le> length (rev (deck s))" by simp
  then obtain b t rest where "rev (deck s) = b # t # rest"
    by (cases "rev (deck s)" rule: list.exhaust; simp; rename_tac x xs; case_tac xs; simp)
  with Turn show ?thesis by (simp add: advanceStage_def Let_def)
qed (simp_all add: advanceStage_def Let_def)

text \<open>After a bet is applied, only the bettor's seat may have a player marked as having acted.\<close>

definition reopened :: "nat \<Rightarrow> engine \<Rightarrow> bool" where
  "reopened actorSeat s \<longleftrightarrow>
     (\<forall>p \<in> set (players s). seat p \<noteq> actorSeat \<and> inHand p \<and> \<not> isAllIn p \<longrightarrow> \<not> hasActedThisRound p)"

lemma bet_applied_reopens:
  assumes t: "inTurn s pid actor" and a: "applyAction s pid Bet amt = Inr (Applied s1)"
  shows "reopened (seat actor) s1"
proof -
  let ?ai = "nat (turnSeat s)"
  let ?f = "\<lambda>p. if seat p \<noteq> seat actor \<and> inHand p \<and> \<not> isAllIn p
                 then p\<lparr>hasActedThisRound := False\<rparr> else p"
  from t have ai: "?ai < length (players s)" "actor = players s ! ?ai"
    by (simp_all add: inTurn_def player_at_Some)
  from a obtain pay sc where c: "commitChips s (seat actor)
        (max 0 (max (bigBlind s) \<lfloor>case amt of None \<Rightarrow> 0 | Some a \<Rightarrow> a\<rfloor> - get0 (streetBets s) (seat actor)))
        = Inr (pay, sc)"
    and ps: "players s1 = (map ?f (players sc))[?ai := (map ?f (players sc) ! ?ai)\<lparr>hasActedThisRound := True\<rparr>]"
    unfolding applyAction_Bet[OF t] Let_def
    by (auto dest!: applied_after_commit simp: upd_player_def reopenRound_def split: if_splits)
  note fr = commitChips_frame[OF c]
  have len: "?ai < length (players sc)" using ai fr(8) by simp
  have "seat (players sc ! ?ai) = map seat (players sc) ! ?ai" using len by simp
  also have "\<dots> = seat actor" using fr(9) ai by simp
  finally have sa: "seat (players sc ! ?ai) = seat actor" .
  show ?thesis
    unfolding reopened_def
  proof (intro ballI impI)
    fix p assume p: "p \<in> set (players s1)" and h: "seat p \<noteq> seat actor \<and> inHand p \<and> \<not> isAllIn p"
    from p obtain j where j: "j < length (players sc)" "p = players s1 ! j"
      unfolding ps by (auto simp: in_set_conv_nth)
    show "\<not> hasActedThisRound p"
    proof (cases "j = ?ai")
      case True
      with j len have "seat p = seat actor" unfolding ps by (simp add: sa)
      with h show ?thesis by simp
    next
      case False
      with j have "p = ?f (players sc ! j)" unfolding ps by simp
      with h show ?thesis by (auto split: if_splits)
    qed
  qed
qed

lemma moveTurn_keeps_reopened:
  assumes "moveTurn s1 = Inr s'" and "reopened x s1"
  shows "reopened x s'"
proof (cases "bettingStage (stage s1) \<and> everyoneActedOrAllIn s1")
  case True
  with assms(1) have "advanceStage s1 = Inr s'" by (simp add: moveTurn_def)
  then have "\<forall>p \<in> set (players s'). \<not> hasActedThisRound p" by (rule advanceStage_acted)
  then show ?thesis by (simp add: reopened_def)
next
  case False
  with assms(1) have "players s' = players s1" by (auto simp: moveTurn_def split: if_splits)
  with assms(2) show ?thesis by (simp add: reopened_def)
qed

lemma bet_not_handOver: "applyAction s pid Bet amt \<noteq> Inr (HandOver s1)"
proof (cases "\<exists>actor. inTurn s pid actor")
  case False
  then show ?thesis by (simp add: applyAction_not_inTurn)
next
  case True
  then obtain actor where t: "inTurn s pid actor" by blast
  show ?thesis
    unfolding applyAction_Bet[OF t] Let_def
    by (auto split: if_splits sum.splits prod.splits)
qed

lemma bet_reopens_round:
  assumes r: "playerAction s pid Bet amt = Inr (True, s')"
      and at: "player_at (players s) (turnSeat s) = Some actor"
  shows "reopened (seat actor) s'"
proof -
  have "\<exists>a. inTurn s pid a"
  proof (rule ccontr)
    assume "\<not> (\<exists>a. inTurn s pid a)"
    then have "applyAction s pid Bet amt = Inr (Rejected s)" by (rule applyAction_not_inTurn)
    with r show False by (simp add: playerAction_def)
  qed
  then obtain a where "inTurn s pid a" by blast
  with at have t: "inTurn s pid actor" by (simp add: inTurn_def)
  from r obtain s1 where a: "applyAction s pid Bet amt = Inr (Applied s1)" and m: "moveTurn s1 = Inr s'"
    using bet_not_handOver[of s pid amt]
    by (auto simp: playerAction_def split: sum.splits applied.splits)
  from bet_applied_reopens[OF t a] m show ?thesis by (rule moveTurn_keeps_reopened[rotated])
qed

text \<open>After an applied action: the stage advances exactly when the round is closed.\<close>

lemma applied_then_closed:
  assumes a: "applyAction s pid kind amt = Inr (Applied s1)" and c: "round_closed s1"
  shows "playerAction s pid kind amt = (case advanceStage s1 of Inl e \<Rightarrow> Inl e | Inr s2 \<Rightarrow> Inr (True, s2))"
  using applyAction_Applied_frame[OF a] a c
  by (simp add: playerAction_def moveTurn_def everyoneActedOrAllIn_iff)

lemma applied_then_open:
  assumes a: "applyAction s pid kind amt = Inr (Applied s1)" and c: "\<not> round_closed s1"
  shows "playerAction s pid kind amt = Inr (True, s1\<lparr>turnSeat := int (nextSeat s1 (nat (turnSeat s)))\<rparr>)"
  using applyAction_Applied_frame[OF a] a c
  by (simp add: playerAction_def moveTurn_def everyoneActedOrAllIn_iff)

lemma applied_result:
  assumes a: "applyAction s pid kind amt = Inr (Applied s1)"
      and r: "playerAction s pid kind amt = Inr (ok, s')"
  shows "ok \<and> (stage s' \<noteq> stage s \<longleftrightarrow> round_closed s1)
         \<and> (\<not> round_closed s1 \<longrightarrow>
              s' = s1\<lparr>turnSeat := turnSeat s'\<rparr>
              \<and> (\<exists>d. 1 \<le> d \<and> d \<le> length (players s1)
                     \<and> turnSeat s' = int ((nat (turnSeat s) + d) mod length (players s1))
                     \<and> activeSeat s1 (nat (turnSeat s'))
                     \<and> (\<forall>k. 1 \<le> k \<and> k < d \<longrightarrow>
                           \<not> activeSeat s1 ((nat (turnSeat s) + k) mod length (players s1)))))"
proof (cases "round_closed s1")
  case True
  note fr = applyAction_Applied_frame[OF a]
  from applied_then_closed[OF a True] r have adv: "advanceStage s1 = Inr s'" and ok: ok
    by (auto split: sum.splits)
  from fr have "bettingStage (stage s1)" by simp
  from advanceStage_changes_stage[OF this adv] fr have "stage s' \<noteq> stage s" by simp
  with True ok show ?thesis by simp
next
  case False
  note fr = applyAction_Applied_frame[OF a]
  from applied_then_open[OF a False] r
  have s': "s' = s1\<lparr>turnSeat := int (nextSeat s1 (nat (turnSeat s)))\<rparr>" and ok: ok by auto
  then have ts: "turnSeat s' = int (nextSeat s1 (nat (turnSeat s)))" by simp
  from round_open_has_active[OF False] obtain x where "activeSeat s1 x" by blast
  from nextSeat_spec[OF this, of "nat (turnSeat s)"] obtain d where
    d: "1 \<le> d" "d \<le> length (players s1)"
       "nextSeat s1 (nat (turnSeat s)) = (nat (turnSeat s) + d) mod length (players s1)"
       "activeSeat s1 (nextSeat s1 (nat (turnSeat s)))"
       "\<forall>k. 1 \<le> k \<and> k < d \<longrightarrow> \<not> activeSeat s1 ((nat (turnSeat s) + k) mod length (players s1))"
    by blast
  have "stage s' = stage s" using s' fr by simp
  moreover have "s' = s1\<lparr>turnSeat := turnSeat s'\<rparr>" using s' by simp
  moreover have "\<exists>d. 1 \<le> d \<and> d \<le> length (players s1)
                     \<and> turnSeat s' = int ((nat (turnSeat s) + d) mod length (players s1))
                     \<and> activeSeat s1 (nat (turnSeat s'))
                     \<and> (\<forall>k. 1 \<le> k \<and> k < d \<longrightarrow>
                           \<not> activeSeat s1 ((nat (turnSeat s) + k) mod length (players s1)))"
    using d ts by (intro exI[of _ d]) simp
  ultimately show ?thesis using False ok by simp
qed

lemma applied_returns:
  assumes a: "applyAction s pid kind amt = Inr (Applied s1)"
      and d: "stage s = Preflop \<longrightarrow> 4 \<le> length (deck s)"
             "stage s = Flop \<or> stage s = Turn \<longrightarrow> 2 \<le> length (deck s)"
  shows "\<exists>s'. playerAction s pid kind amt = Inr (True, s')"
proof (cases "round_closed s1")
  case True
  note fr = applyAction_Applied_frame[OF a]
  from d fr have "\<exists>s2. advanceStage s1 = Inr s2" by (intro advanceStage_returns) simp_all
  with applied_then_closed[OF a True] show ?thesis by auto
next
  case False
  from applied_then_open[OF a False] show ?thesis by blast
qed

text \<open>
  Claim C4. (1) After a successful bet, every player other than the bettor (by seat) who is
  in hand and not all-in has \<open>hasActedThisRound = false\<close>. (2) When an action has been applied
  without ending the hand (\<open>applyAction\<close> returns \<open>Applied s1\<close>) and \<open>playerAction\<close> returns, it
  returns success, and the stage has changed exactly when the round is closed in \<open>s1\<close>: every
  player in hand and not all-in has acted and has matched \<open>currentBet\<close>. Otherwise only the
  seat to act changes: it is the first seat after the old one, going round the table, that is
  in hand and not all-in. (3) \<open>playerAction\<close> does return then, provided the deck holds the
  cards of the next street.
\<close>

theorem round_closure:
  "(playerAction s pid Bet amt = Inr (True, s') \<and> player_at (players s) (turnSeat s) = Some actor \<longrightarrow>
      (\<forall>p \<in> set (players s').
         seat p \<noteq> seat actor \<and> inHand p \<and> \<not> isAllIn p \<longrightarrow> \<not> hasActedThisRound p))
   \<and> (applyAction s pid kind amt = Inr (Applied s1) \<and> playerAction s pid kind amt = Inr (ok, s') \<longrightarrow>
        ok \<and> (stage s' \<noteq> stage s \<longleftrightarrow> round_closed s1)
        \<and> (\<not> round_closed s1 \<longrightarrow>
             s' = s1\<lparr>turnSeat := turnSeat s'\<rparr>
             \<and> (\<exists>d. 1 \<le> d \<and> d \<le> length (players s1)
                    \<and> turnSeat s' = int ((nat (turnSeat s) + d) mod length (players s1))
                    \<and> activeSeat s1 (nat (turnSeat s'))
                    \<and> (\<forall>k. 1 \<le> k \<and> k < d \<longrightarrow>
                          \<not> activeSeat s1 ((nat (turnSeat s) + k) mod length (players s1))))))
   \<and> (applyAction s pid kind amt = Inr (Applied s1)
        \<and> (stage s = Preflop \<longrightarrow> 4 \<le> length (deck s))
        \<and> (stage s = Flop \<or> stage s = Turn \<longrightarrow> 2 \<le> length (deck s)) \<longrightarrow>
        (\<exists>s2. playerAction s pid kind amt = Inr (True, s2)))"
proof (intro conjI impI)
  assume "playerAction s pid Bet amt = Inr (True, s') \<and> player_at (players s) (turnSeat s) = Some actor"
  then have "reopened (seat actor) s'" using bet_reopens_round by blast
  then show "\<forall>p \<in> set (players s').
         seat p \<noteq> seat actor \<and> inHand p \<and> \<not> isAllIn p \<longrightarrow> \<not> hasActedThisRound p"
    by (simp add: reopened_def)
next
  assume h: "applyAction s pid kind amt = Inr (Applied s1) \<and> playerAction s pid kind amt = Inr (ok, s')"
  then have r: "ok \<and> (stage s' \<noteq> stage s \<longleftrightarrow> round_closed s1)
         \<and> (\<not> round_closed s1 \<longrightarrow>
              s' = s1\<lparr>turnSeat := turnSeat s'\<rparr>
              \<and> (\<exists>d. 1 \<le> d \<and> d \<le> length (players s1)
                     \<and> turnSeat s' = int ((nat (turnSeat s) + d) mod length (players s1))
                     \<and> activeSeat s1 (nat (turnSeat s'))
                     \<and> (\<forall>k. 1 \<le> k \<and> k < d \<longrightarrow>
                           \<not> activeSeat s1 ((nat (turnSeat s) + k) mod length (players s1)))))"
    using applied_result by blast
  from r show ok by blast
  from r show "stage s' \<noteq> stage s \<longleftrightarrow> round_closed s1" by blast
  assume "\<not> round_closed s1"
  with r show "s' = s1\<lparr>turnSeat := turnSeat s'\<rparr>" by blast
  from r \<open>\<not> round_closed s1\<close>
  show "\<exists>d. 1 \<le> d \<and> d \<le> length (players s1)
                     \<and> turnSeat s' = int ((nat (turnSeat s) + d) mod length (players s1))
                     \<and> activeSeat s1 (nat (turnSeat s'))
                     \<and> (\<forall>k. 1 \<le> k \<and> k < d \<longrightarrow>
                           \<not> activeSeat s1 ((nat (turnSeat s) + k) mod length (players s1)))"
    by blast
next
  assume "applyAction s pid kind amt = Inr (Applied s1)
        \<and> (stage s = Preflop \<longrightarrow> 4 \<le> length (deck s))
        \<and> (stage s = Flop \<or> stage s = Turn \<longrightarrow> 2 \<le> length (deck s))"
  then show "\<exists>s2. playerAction s pid kind amt = Inr (True, s2)"
    using applied_returns by blast
qed

text \<open>
  \<open>hand0\<close> goes on: Bob and Cy call, Ann (big blind) checks and the flop is dealt; Cy, first
  to act, bets 5.
\<close>

definition hand0_called :: engine where
  "hand0_called =
     hand0\<lparr>players := [players hand0 ! 0,
                        (players hand0 ! 1)\<lparr>stack := 28, hasActedThisRound := True\<rparr>,
                        (players hand0 ! 2)\<lparr>stack := 28, hasActedThisRound := True\<rparr>],
            pot := 6, turnSeat := 0, streetBets := [2, 2, 2], totalBets := [2, 2, 2],
            actionLog := actionLog hand0 @ [LogCall ''Bob'' 2, LogCall ''Cy'' 1]\<rparr>"

definition flop0 :: engine where
  "flop0 =
     hand0_called\<lparr>stage := Flop,
                   players := map (\<lambda>p. p\<lparr>hasActedThisRound := False\<rparr>) (players hand0_called),
                   currentBet := 0, streetBets := [0, 0, 0],
                   deck := take 42 demo_deck,
                   community := [mk 7 Spades, mk 6 Spades, mk 5 Spades],
                   turnSeat := 2, message := MsgNextStreet,
                   actionLog := actionLog hand0_called
                                @ [LogCheck ''Ann'', LogFlop (mk 7 Spades) (mk 6 Spades) (mk 5 Spades)]\<rparr>"

definition flop0_cy_bet :: engine where
  "flop0_cy_bet =
     flop0\<lparr>players := (players flop0)[2 := (players flop0 ! 2)\<lparr>stack := 23, hasActedThisRound := True\<rparr>],
            currentBet := 5, pot := 11, streetBets := [0, 0, 5], totalBets := [2, 2, 7],
            lastAggressorSeat := Some 2,
            actionLog := actionLog flop0 @ [LogBet ''Cy'' 5]\<rparr>"

lemmas demo_eval =
  playerAction_def applyAction_def bettingStage_def player_at_def js_at_def get0_def
  js_set_def commitChips_def reopenRound_def mk_def demo_deck_def
  upd_player_def log_add_def LOG_LIMIT_def moveTurn_def advanceStage_def
  everyoneActedOrAllIn_def nextSeat_def upt_rec Let_def activeCount_def

lemma hand0_calls:
  "\<exists>s. playerAction hand0 ''b'' Call None = Inr (True, s)
       \<and> playerAction s ''c'' Call None = Inr (True, hand0_called)"
  unfolding hand0_called_def hand0_eq
  by (simp add: demo_eval)

lemma hand0_called_checks:
  "playerAction hand0_called ''a'' Check None = Inr (True, flop0)"
  unfolding flop0_def hand0_called_def hand0_eq
  by (simp add: demo_eval)

lemma flop0_cy_bets:
  "applyAction flop0 ''c'' Bet (Some 5) = Inr (Applied flop0_cy_bet)"
  "playerAction flop0 ''c'' Bet (Some 5) = Inr (True, flop0_cy_bet\<lparr>turnSeat := 0\<rparr>)"
  unfolding flop0_cy_bet_def flop0_def hand0_called_def hand0_eq
  by (simp_all add: demo_eval)

lemma hand0_called_check_applied:
  "applyAction hand0_called ''a'' Check None
     = Inr (Applied (log_add (LogCheck ''Ann'')
                       (upd_player 0 (\<lambda>p. p\<lparr>hasActedThisRound := True\<rparr>) hand0_called)))"
  unfolding hand0_called_def hand0_eq
  by (simp add: applyAction_def bettingStage_def player_at_def js_at_def get0_def Let_def)

theorem round_closure_witness:
  "playerAction flop0 ''c'' Bet (Some 5) = Inr (True, flop0_cy_bet\<lparr>turnSeat := 0\<rparr>)
   \<and> player_at (players flop0) (turnSeat flop0) = Some (players flop0 ! 2)
   \<and> applyAction flop0 ''c'' Bet (Some 5) = Inr (Applied flop0_cy_bet)
   \<and> stage flop0 = Flop \<and> 2 \<le> length (deck flop0)
   \<and> list_all (\<lambda>p. seat p = 2 \<or> \<not> hasActedThisRound p) (players (flop0_cy_bet\<lparr>turnSeat := 0\<rparr>))
   \<and> list_all (\<lambda>p. inHand p \<and> \<not> isAllIn p) (players (flop0_cy_bet\<lparr>turnSeat := 0\<rparr>))
   \<and> \<not> round_closed flop0_cy_bet
   \<and> activeSeat flop0_cy_bet 0
   \<and> applyAction hand0_called ''a'' Check None
        = Inr (Applied (log_add (LogCheck ''Ann'')
                          (upd_player 0 (\<lambda>p. p\<lparr>hasActedThisRound := True\<rparr>) hand0_called)))
   \<and> playerAction hand0_called ''a'' Check None = Inr (True, flop0)
   \<and> round_closed (log_add (LogCheck ''Ann'')
                      (upd_player 0 (\<lambda>p. p\<lparr>hasActedThisRound := True\<rparr>) hand0_called))"
proof -
  let ?s' = "flop0_cy_bet\<lparr>turnSeat := 0\<rparr>"
  let ?x = "log_add (LogCheck ''Ann'') (upd_player 0 (\<lambda>p. p\<lparr>hasActedThisRound := True\<rparr>) hand0_called)"
  have at: "player_at (players flop0) (turnSeat flop0) = Some (players flop0 ! 2)"
    unfolding flop0_def hand0_called_def hand0_eq by (simp add: player_at_def js_at_def)
  have st: "stage flop0 = Flop" "2 \<le> length (deck flop0)" "seat (players flop0 ! 2) = 2"
    "stage ?s' = stage flop0" "stage flop0 \<noteq> stage hand0_called" "nat (turnSeat ?s') = 0"
    unfolding flop0_cy_bet_def flop0_def hand0_called_def hand0_eq
    by (simp_all add: demo_deck_def)
  note a = round_closure[where s = flop0 and pid = "''c''" and kind = Bet and amt = "Some 5"
             and s' = ?s' and actor = "players flop0 ! 2" and ?s1.0 = flop0_cy_bet and ok = True]
  note b = round_closure[where s = hand0_called and pid = "''a''" and kind = Check and amt = None
             and s' = flop0 and ?s1.0 = ?x and ok = True]
  from a flop0_cy_bets at st(3)
  have 1: "\<forall>p \<in> set (players ?s'). seat p \<noteq> 2 \<and> inHand p \<and> \<not> isAllIn p \<longrightarrow> \<not> hasActedThisRound p"
    by simp
  from a flop0_cy_bets st(4) have 2: "\<not> round_closed flop0_cy_bet" by simp
  from a flop0_cy_bets 2 st(6) have 3: "activeSeat flop0_cy_bet 0" by auto
  from b hand0_called_check_applied hand0_called_checks st(5)
  have 4: "round_closed ?x" by simp
  have 5: "list_all (\<lambda>p. inHand p \<and> \<not> isAllIn p) (players ?s')"
    unfolding flop0_cy_bet_def flop0_def hand0_called_def hand0_eq by simp
  from 1 5 have 6: "list_all (\<lambda>p. seat p = 2 \<or> \<not> hasActedThisRound p) (players ?s')"
    unfolding list_all_iff by blast
  from flop0_cy_bets at st 2 3 4 5 6 hand0_called_check_applied hand0_called_checks
  show ?thesis by blast
qed

section \<open>rank7 depends on the multiset of the cards only\<close>

lemma countsByRank_fold:
  "distinct (map fst m) \<Longrightarrow>
   distinct (map fst (fold (\<lambda>c m. AList.update (rank c)
                  ((case map_of m (rank c) of None \<Rightarrow> 0 | Some k \<Rightarrow> k) + 1) m) cs m))
   \<and> (\<forall>r. map_of (fold (\<lambda>c m. AList.update (rank c)
                  ((case map_of m (rank c) of None \<Rightarrow> 0 | Some k \<Rightarrow> k) + 1) m) cs m) r
        = (if count_list (map rank cs) r = 0 then map_of m r
           else Some ((case map_of m r of None \<Rightarrow> 0 | Some k \<Rightarrow> k) + count_list (map rank cs) r)))"
proof (induction cs arbitrary: m)
  case Nil
  then show ?case by simp
next
  case (Cons c cs)
  let ?m = "AList.update (rank c) ((case map_of m (rank c) of None \<Rightarrow> 0 | Some k \<Rightarrow> k) + 1) m"
  have d: "distinct (map fst ?m)" using Cons.prems by (rule distinct_update)
  from Cons.IH[OF d] show ?case
    by (auto simp: update_conv')
qed

lemma countsByRank_distinct: "distinct (map fst (countsByRank cs))"
  using countsByRank_fold[of "[]" cs] by (simp add: countsByRank_def)

lemma countsByRank_map_of:
  "map_of (countsByRank cs) r
     = (if count_list (map rank cs) r = 0 then None else Some (count_list (map rank cs) r))"
  using countsByRank_fold[of "[]" cs] by (simp add: countsByRank_def)

lemma countsByRank_set:
  "set (countsByRank cs) = {(r, k). k = count_list (map rank cs) r \<and> k \<noteq> 0}"
proof -
  have "(r, k) \<in> set (countsByRank cs) \<longleftrightarrow> k = count_list (map rank cs) r \<and> k \<noteq> 0" for r k
    using map_of_eq_Some_iff[OF countsByRank_distinct, of cs r k]
    by (auto simp: countsByRank_map_of split: if_splits)
  then show ?thesis by auto
qed

lemma count_list_mset: "mset xs = mset ys \<Longrightarrow> count_list xs r = count_list ys r"
  by (metis count_mset)

lemma countsByRank_mset:
  assumes "mset cs = mset cs'"
  shows "mset (countsByRank cs) = mset (countsByRank cs')"
proof -
  from assms have "mset (map rank cs) = mset (map rank cs')" by simp
  then have "count_list (map rank cs) r = count_list (map rank cs') r" for r
    by (rule count_list_mset)
  then have "set (countsByRank cs) = set (countsByRank cs')"
    by (simp add: countsByRank_set)
  moreover have "distinct (countsByRank cs)" "distinct (countsByRank cs')"
    using countsByRank_distinct distinct_map by blast+
  ultimately show ?thesis by (simp add: set_eq_iff_mset_eq_distinct)
qed

lemma sort_mset: "mset xs = mset ys \<Longrightarrow> sort xs = sort ys"
  by (metis sorted_list_of_multiset_mset)

lemma ranksDesc_mset:
  assumes "mset cs = mset cs'"
  shows "sort_desc (map fst (countsByRank cs)) = sort_desc (map fst (countsByRank cs'))"
proof -
  have "mset (map fst (countsByRank cs)) = mset (map fst (countsByRank cs'))"
    using countsByRank_mset[OF assms] by (metis mset_map)
  then show ?thesis by (simp add: sort_desc_def sort_mset)
qed

lemma groupsOf_mset:
  assumes "mset cs = mset cs'"
  shows "groupsOf (countsByRank cs) = groupsOf (countsByRank cs')"
  unfolding groupsOf_def
  by (rule sort_key_eq_sort_key[OF countsByRank_mset[OF assms]]) (auto simp: inj_on_def)

lemma suitsOf_fold:
  "distinct (map fst m) \<Longrightarrow>
   distinct (map fst (fold (\<lambda>c m. AList.update (suit c)
                  ((case map_of m (suit c) of None \<Rightarrow> [] | Some arr \<Rightarrow> arr) @ [c]) m) cs m))
   \<and> (\<forall>s. map_of (fold (\<lambda>c m. AList.update (suit c)
                  ((case map_of m (suit c) of None \<Rightarrow> [] | Some arr \<Rightarrow> arr) @ [c]) m) cs m) s
        = (if filter (\<lambda>c. suit c = s) cs = [] then map_of m s
           else Some ((case map_of m s of None \<Rightarrow> [] | Some arr \<Rightarrow> arr) @ filter (\<lambda>c. suit c = s) cs)))"
proof (induction cs arbitrary: m)
  case Nil
  then show ?case by simp
next
  case (Cons c cs)
  let ?m = "AList.update (suit c) ((case map_of m (suit c) of None \<Rightarrow> [] | Some arr \<Rightarrow> arr) @ [c]) m"
  have d: "distinct (map fst ?m)" using Cons.prems by (rule distinct_update)
  from Cons.IH[OF d] show ?case
    by (auto simp: update_conv')
qed

lemma suitsOf_distinct: "distinct (map fst (suitsOf cs))"
  using suitsOf_fold[of "[]" cs] by (simp add: suitsOf_def)

lemma suitsOf_map_of:
  "map_of (suitsOf cs) s
     = (if filter (\<lambda>c. suit c = s) cs = [] then None else Some (filter (\<lambda>c. suit c = s) cs))"
  using suitsOf_fold[of "[]" cs] by (simp add: suitsOf_def)

lemma suitsOf_set:
  "(s, arr) \<in> set (suitsOf cs) \<longleftrightarrow> arr = filter (\<lambda>c. suit c = s) cs \<and> arr \<noteq> []"
  using map_of_eq_Some_iff[OF suitsOf_distinct, of cs s arr]
  by (auto simp: suitsOf_map_of split: if_splits)

text \<open>The loop that picks the flush suit returns a suit with five cards or more, if there is one.\<close>

lemma flushSuit_fold_None:
  "fold (\<lambda>(s, arr) fs. if length arr \<ge> 5 then Some s else fs) al init = None
     \<longleftrightarrow> init = None \<and> (\<forall>(s, arr) \<in> set al. length arr < 5)"
  by (induction al arbitrary: init) (auto split: prod.splits)

lemma flushSuit_fold_Some:
  "fold (\<lambda>(s, arr) fs. if length arr \<ge> 5 then Some s else fs) al init = Some x
     \<Longrightarrow> init = Some x \<or> (\<exists>arr. (x, arr) \<in> set al \<and> 5 \<le> length arr)"
  by (induction al arbitrary: init) (auto split: prod.splits if_splits)

lemma flushSuitOf_None:
  "flushSuitOf (suitsOf cs) = None \<longleftrightarrow> (\<forall>s. length (filter (\<lambda>c. suit c = s) cs) < 5)"
proof -
  have "(\<forall>(s, arr) \<in> set (suitsOf cs). length arr < 5)
          \<longleftrightarrow> (\<forall>s. length (filter (\<lambda>c. suit c = s) cs) < 5)"
  proof
    assume a: "\<forall>(s, arr) \<in> set (suitsOf cs). length arr < 5"
    show "\<forall>s. length (filter (\<lambda>c. suit c = s) cs) < 5"
    proof
      fix s
      show "length (filter (\<lambda>c. suit c = s) cs) < 5"
      proof (cases "filter (\<lambda>c. suit c = s) cs = []")
        case True then show ?thesis by simp
      next
        case False
        then have "(s, filter (\<lambda>c. suit c = s) cs) \<in> set (suitsOf cs)" by (simp add: suitsOf_set)
        with a show ?thesis by blast
      qed
    qed
  next
    assume "\<forall>s. length (filter (\<lambda>c. suit c = s) cs) < 5"
    then show "\<forall>(s, arr) \<in> set (suitsOf cs). length arr < 5"
      by (auto simp: suitsOf_set)
  qed
  then show ?thesis by (simp add: flushSuitOf_def flushSuit_fold_None)
qed

lemma flushSuitOf_Some:
  "flushSuitOf (suitsOf cs) = Some s \<Longrightarrow> 5 \<le> length (filter (\<lambda>c. suit c = s) cs)"
  using flushSuit_fold_Some[of "suitsOf cs" None s]
  by (auto simp: flushSuitOf_def suitsOf_set)

lemma length_filter_mono:
  "(\<And>x. P x \<Longrightarrow> Q x) \<Longrightarrow> length (filter P xs) \<le> length (filter Q xs)"
  by (induction xs) auto

lemma two_flush_suits:
  assumes "5 \<le> length (filter (\<lambda>c. suit c = s) cs)" "5 \<le> length (filter (\<lambda>c. suit c = s') cs)"
      and "s \<noteq> s'"
  shows "10 \<le> length cs"
proof -
  have "length (filter (\<lambda>c. suit c = s') cs) \<le> length (filter (\<lambda>c. \<not> suit c = s) cs)"
    using assms(3) by (intro length_filter_mono) auto
  with assms(1,2) sum_length_filter_compl[of "\<lambda>c. suit c = s" cs] show ?thesis by linarith
qed

lemma flushSuitOf_mset:
  assumes m: "mset cs = mset cs'" and len: "length cs \<le> 9"
  shows "flushSuitOf (suitsOf cs) = flushSuitOf (suitsOf cs')"
proof -
  have cnt: "length (filter (\<lambda>c. suit c = s) cs) = length (filter (\<lambda>c. suit c = s) cs')" for s
    using m by (metis mset_filter size_mset)
  show ?thesis
  proof (cases "flushSuitOf (suitsOf cs)")
    case None
    then have "flushSuitOf (suitsOf cs') = None" by (simp add: flushSuitOf_None cnt)
    with None show ?thesis by simp
  next
    case (Some s)
    then have s: "5 \<le> length (filter (\<lambda>c. suit c = s) cs)" by (rule flushSuitOf_Some)
    then have "flushSuitOf (suitsOf cs') \<noteq> None"
      unfolding flushSuitOf_None cnt[symmetric] by (auto simp: not_less intro: exI[of _ s])
    then obtain s' where s': "flushSuitOf (suitsOf cs') = Some s'" by auto
    then have "5 \<le> length (filter (\<lambda>c. suit c = s') cs)" using flushSuitOf_Some cnt by metis
    with s len have "s = s'" using two_flush_suits[of s cs s'] by fastforce
    with Some s' show ?thesis by simp
  qed
qed

lemma flushRanks_mset:
  assumes "mset cs = mset cs'"
  shows "sort_desc (map rank (case map_of (suitsOf cs) s of None \<Rightarrow> [] | Some arr \<Rightarrow> arr))
       = sort_desc (map rank (case map_of (suitsOf cs') s of None \<Rightarrow> [] | Some arr \<Rightarrow> arr))"
proof -
  have a: "(case map_of (suitsOf xs) s of None \<Rightarrow> [] | Some arr \<Rightarrow> arr) = filter (\<lambda>c. suit c = s) xs" for xs
    by (simp add: suitsOf_map_of)
  have "mset (map rank (filter (\<lambda>c. suit c = s) cs)) = mset (map rank (filter (\<lambda>c. suit c = s) cs'))"
    using assms by simp
  then show ?thesis unfolding a sort_desc_def by (simp add: sort_mset)
qed

text \<open>\<open>rank7\<close> as a function of what it reads off the cards.\<close>

definition rank7_of :: "int list \<Rightarrow> (int \<times> nat) list \<Rightarrow> bool \<Rightarrow> int list \<Rightarrow> rankResult" where
  "rank7_of ranksDesc groups hasFlush flushRanks =
     (let sfHigh = (if hasFlush then isStraight flushRanks else None);
          threes = sort_desc (map fst (filter (\<lambda>(r, c). c = 3) groups));
          pairs = sort_desc (map fst (filter (\<lambda>(r, c). c = 2) groups))
      in case sfHigh of Some h \<Rightarrow> (8, [Some h])
         | None \<Rightarrow>
           if (case groups of [] \<Rightarrow> False | g # _ \<Rightarrow> snd g = 4)
           then (7, [Some (fst (hd groups)), js_at (filter (\<lambda>r. r \<noteq> fst (hd groups)) ranksDesc) 0])
           else if length threes \<ge> 2 \<or> (length threes \<ge> 1 \<and> length pairs \<ge> 1)
           then (6, [Some (threes ! 0), Some (if length threes \<ge> 2 then threes ! 1 else pairs ! 0)])
           else if hasFlush
           then (5, map Some (take 5 flushRanks))
           else (case isStraight ranksDesc of
                   Some sHigh \<Rightarrow> (4, [Some sHigh])
                 | None \<Rightarrow>
                   if length threes \<ge> 1
                   then (3, Some (threes ! 0) # map Some (take 2 (filter (\<lambda>r. r \<noteq> threes ! 0) ranksDesc)))
                   else if length pairs \<ge> 2
                   then (2, [Some (max (pairs ! 0) (pairs ! 1)), Some (min (pairs ! 0) (pairs ! 1)),
                             js_at (filter (\<lambda>r. r \<noteq> pairs ! 0 \<and> r \<noteq> pairs ! 1) ranksDesc) 0])
                   else if length pairs = 1
                   then (1, Some (pairs ! 0) # map Some (take 3 (filter (\<lambda>r. r \<noteq> pairs ! 0) ranksDesc)))
                   else (0, map Some (take 5 ranksDesc))))"

lemma rank7_eq_rank7_of:
  "rank7 cs =
     rank7_of (sort_desc (map fst (countsByRank cs))) (groupsOf (countsByRank cs))
              (flushSuitOf (suitsOf cs) \<noteq> None)
              (sort_desc (map rank (case flushSuitOf (suitsOf cs) of None \<Rightarrow> []
                  | Some fs \<Rightarrow> (case map_of (suitsOf cs) fs of None \<Rightarrow> [] | Some arr \<Rightarrow> arr))))"
  by (cases "flushSuitOf (suitsOf cs)")
     (simp_all add: rank7_def rank7_of_def Let_def split: option.splits)

lemma rank7_mset:
  assumes m: "mset cs = mset cs'" and len: "length cs \<le> 9"
  shows "rank7 cs = rank7 cs'"
proof -
  note f = flushSuitOf_mset[OF m len]
  have "sort_desc (map rank (case flushSuitOf (suitsOf cs) of None \<Rightarrow> []
                  | Some fs \<Rightarrow> (case map_of (suitsOf cs) fs of None \<Rightarrow> [] | Some arr \<Rightarrow> arr)))
      = sort_desc (map rank (case flushSuitOf (suitsOf cs') of None \<Rightarrow> []
                  | Some fs \<Rightarrow> (case map_of (suitsOf cs') fs of None \<Rightarrow> [] | Some arr \<Rightarrow> arr)))"
    unfolding f using flushRanks_mset[OF m]
    by (cases "flushSuitOf (suitsOf cs')") simp_all
  then show ?thesis
    unfolding rank7_eq_rank7_of
    by (simp only: ranksDesc_mset[OF m] groupsOf_mset[OF m] f)
qed

text \<open>
  Claim C7. For a list of seven cards and any rearrangement of it (a list with the same
  multiset of cards), \<open>rank7\<close> returns the same category and the same tiebreak sequence.
\<close>

theorem rank7_order_invariant:
  "length cards = 7 \<and> mset cards' = mset cards \<longrightarrow> rank7 cards' = rank7 cards"
proof
  assume a: "length cards = 7 \<and> mset cards' = mset cards"
  then have "mset cards = mset cards'" by simp
  moreover from a have "length cards \<le> 9" by simp
  ultimately have "rank7 cards = rank7 cards'" by (rule rank7_mset)
  then show "rank7 cards' = rank7 cards" by simp
qed

text \<open>The wheel with a nine and a queen, no flush.\<close>

definition wheel_hand :: "card list" where
  "wheel_hand = [mk 14 Clubs, mk 2 Diamonds, mk 3 Hearts, mk 4 Spades, mk 5 Clubs,
                 mk 9 Diamonds, mk 12 Hearts]"

lemmas rank7_eval =
  rank7_def countsByRank_def suitsOf_def flushSuitOf_def groupsOf_def sort_desc_def
  isStraight_def isStraight_step_def array_from_set_def js_at_def upt_rec Let_def mk_def

lemma rank7_wheel_hand: "rank7 wheel_hand = (4, [Some 5])"
  by (simp add: wheel_hand_def rank7_eval)

theorem rank7_order_invariant_witness:
  "length wheel_hand = 7 \<and> mset (rev wheel_hand) = mset wheel_hand
   \<and> rev wheel_hand \<noteq> wheel_hand
   \<and> rank7 (rev wheel_hand) = rank7 wheel_hand
   \<and> rank7 (rev wheel_hand) = (4, [Some 5])"
proof -
  have l: "length wheel_hand = 7" by (simp add: wheel_hand_def)
  have m: "mset (rev wheel_hand) = mset wheel_hand" by simp
  have n: "rev wheel_hand \<noteq> wheel_hand" by (simp add: wheel_hand_def mk_def)
  from rank7_order_invariant[of wheel_hand "rev wheel_hand"] l m
  have "rank7 (rev wheel_hand) = rank7 wheel_hand" by blast
  with l m n rank7_wheel_hand show ?thesis by simp
qed

section \<open>isStraight\<close>

text \<open>
  Straight detection in the words of the specification, on the set of ranks: the ace (14)
  also counts as 1, a straight with top rank \<open>h\<close> is a run \<open>h-4, ..., h\<close> of ranks in the set,
  and the result is the highest such \<open>h\<close>, or none.
\<close>

definition straight_spec :: "int set \<Rightarrow> int option" where
  "straight_spec S =
     (let S' = (if 14 \<in> S then insert 1 S else S);
          H = {h \<in> S'. {h - 4 .. h} \<subseteq> S'}
      in if H = {} then None else Some (Max H))"

text \<open>The loop of \<open>isStraight\<close> on the array \<open>u\<close>.\<close>

definition straight_scan :: "int list \<Rightarrow> nat \<times> int" where
  "straight_scan u = fold (isStraight_step u) [0 ..< length u - 1] (1, 0)"

lemma isStraight_step_append:
  assumes "i + 1 < length u"
  shows "isStraight_step (u @ [y]) i st = isStraight_step u i st"
  using assms by (cases st) (simp add: isStraight_step_def nth_append Let_def)

lemma straight_scan_snoc:
  assumes "u \<noteq> []"
  shows "straight_scan (u @ [y]) = isStraight_step (u @ [y]) (length u - 1) (straight_scan u)"
proof -
  from assms obtain k where k: "length u = Suc k" by (cases u) auto
  have "fold (isStraight_step (u @ [y])) [0 ..< k] st = fold (isStraight_step u) [0 ..< k] st" for st
  proof (rule fold_cong)
    show "st = st" ..
    show "[0 ..< k] = [0 ..< k]" ..
    fix x assume "x \<in> set [0 ..< k]"
    then have "x + 1 < length u" using k by simp
    then show "isStraight_step (u @ [y]) x = isStraight_step u x"
      by (intro ext isStraight_step_append)
  qed
  then show ?thesis using k by (simp add: straight_scan_def)
qed

text \<open>
  The invariant of the loop, on a strictly decreasing array read from its end: \<open>run\<close> is the
  length of the run of consecutive ranks that ends the array, and \<open>best\<close> is the highest top
  of a run of five in the array (0 when there is none).
\<close>

definition scan_inv :: "int list \<Rightarrow> nat \<times> int \<Rightarrow> bool" where
  "scan_inv u st \<longleftrightarrow>
     (case st of (run, best) \<Rightarrow>
        1 \<le> run \<and> run \<le> length u
        \<and> (\<forall>j < run. rev u ! j = last u + int j)
        \<and> (run < length u \<longrightarrow> rev u ! run \<noteq> last u + int run)
        \<and> best = Max (insert 0 {h \<in> set u. {h - 4 .. h} \<subseteq> set u}))"

lemma run_window:
  assumes sw: "sorted_wrt (<) v" and ne: "v \<noteq> []"
      and r1: "1 \<le> run" "run \<le> length v"
      and r2: "\<forall>j < run. v ! j = v ! 0 + int j"
      and r3: "run < length v \<longrightarrow> v ! run \<noteq> v ! 0 + int run"
  shows "{v ! 0 .. v ! 0 + int m} \<subseteq> set v \<longleftrightarrow> m < run"
proof
  assume m: "m < run"
  show "{v ! 0 .. v ! 0 + int m} \<subseteq> set v"
  proof
    fix z assume "z \<in> {v ! 0 .. v ! 0 + int m}"
    then have "z = v ! 0 + int (nat (z - v ! 0))" "nat (z - v ! 0) \<le> m" by auto
    then obtain j where j: "z = v ! 0 + int j" "j \<le> m" by blast
    from j(2) m have jr: "j < run" by simp
    with r2 have "v ! j = v ! 0 + int j" by blast
    with j(1) have "z = v ! j" by simp
    moreover from jr r1 have "j < length v" by simp
    ultimately show "z \<in> set v" by simp
  qed
next
  assume sub: "{v ! 0 .. v ! 0 + int m} \<subseteq> set v"
  show "m < run"
  proof (rule ccontr)
    assume "\<not> m < run"
    then have "v ! 0 + int run \<in> {v ! 0 .. v ! 0 + int m}" by simp
    with sub have "v ! 0 + int run \<in> set v" by blast
    then obtain k where k: "k < length v" "v ! k = v ! 0 + int run" by (auto simp: in_set_conv_nth)
    have "\<not> k < run"
    proof
      assume "k < run"
      with r2 have "v ! k = v ! 0 + int k" by blast
      with k \<open>k < run\<close> show False by simp
    qed
    moreover have "k \<noteq> run"
    proof
      assume "k = run"
      with k have "run < length v" "v ! run = v ! 0 + int run" by simp_all
      with r3 show False by blast
    qed
    ultimately have gt: "run < k" by simp
    from r1 have "run - 1 < run" by simp
    with r2 have a: "v ! (run - 1) = v ! 0 + int (run - 1)" by blast
    have "run - 1 < run" "run < length v" using r1 gt k by simp_all
    with sw have b: "v ! (run - 1) < v ! run" by (rule sorted_wrt_nth_less)
    from sw gt k(1) have c: "v ! run < v ! k" by (rule sorted_wrt_nth_less)
    have "int (run - 1) = int run - 1" using r1 by simp
    with a b c k(2) show False by simp
  qed
qed

lemma scan_inv_single: "scan_inv [x] (straight_scan [x])"
proof -
  have "x - 1 \<in> {x - 4 .. x}" by simp
  moreover have "x - 1 \<noteq> x" by simp
  ultimately have "\<not> {x - 4 .. x} \<subseteq> {x}" by blast
  then have e: "{h \<in> set [x]. {h - 4 .. h} \<subseteq> set [x]} = {}" by auto
  have "Max (insert 0 {h \<in> set [x]. {h - 4 .. h} \<subseteq> set [x]}) = (0 :: int)"
    unfolding e by simp
  moreover have "straight_scan [x] = (1, 0)" by (simp add: straight_scan_def)
  ultimately show ?thesis unfolding scan_inv_def by simp
qed

lemma scan_inv_snoc:
  assumes sw: "sorted_wrt (>) (u @ [y])" and ne: "u \<noteq> []"
      and inv: "scan_inv u (straight_scan u)"
  shows "scan_inv (u @ [y]) (straight_scan (u @ [y]))"
proof -
  obtain run best where st: "straight_scan u = (run, best)" by (cases "straight_scan u")
  let ?x = "last u"
  let ?H = "{h \<in> set u. {h - 4 .. h} \<subseteq> set u}"
  let ?H' = "{h \<in> set (u @ [y]). {h - 4 .. h} \<subseteq> set (u @ [y])}"
  from inv st have i1: "1 \<le> run" "run \<le> length u"
    and i2: "\<forall>j < run. rev u ! j = ?x + int j"
    and i3: "run < length u \<longrightarrow> rev u ! run \<noteq> ?x + int run"
    and i4: "best = Max (insert 0 ?H)"
    by (simp_all add: scan_inv_def)
  from sw have su: "sorted_wrt (>) u" and gy: "\<forall>e \<in> set u. y < e"
    by (auto simp: sorted_wrt_append)
  have sv: "sorted_wrt (<) (rev u)" using su by (simp add: sorted_wrt_rev)
  have v0: "rev u ! 0 = ?x" using ne by (simp add: rev_nth last_conv_nth)
  have xin: "?x \<in> set u" using ne by simp
  have yx: "y < ?x" using gy xin by blast
  have minx: "?x \<le> e" if "e \<in> set u" for e
  proof -
    from that obtain k where k: "k < length (rev u)" "rev u ! k = e"
      by (metis in_set_conv_nth set_rev)
    show ?thesis
    proof (cases "k = 0")
      case True with k v0 show ?thesis by simp
    next
      case False
      then have "0 < k" by simp
      from sorted_wrt_nth_less[OF sv this k(1)] v0 k(2) show ?thesis by simp
    qed
  qed
  have win: "{?x .. ?x + int m} \<subseteq> set u \<longleftrightarrow> m < run" for m
  proof -
    have "{rev u ! 0 .. rev u ! 0 + int m} \<subseteq> set (rev u) \<longleftrightarrow> m < run"
    proof (rule run_window[OF sv])
      show "rev u \<noteq> []" using ne by simp
      show "1 \<le> run" by (rule i1)
      show "run \<le> length (rev u)" using i1 by simp
      show "\<forall>j < run. rev u ! j = rev u ! 0 + int j" using i2 v0 by simp
      show "run < length (rev u) \<longrightarrow> rev u ! run \<noteq> rev u ! 0 + int run" using i3 v0 by simp
    qed
    then show ?thesis using v0 by simp
  qed
  have H': "?H' = ?H \<union> (if ?x = y + 1 \<and> 4 \<le> run then {y + 4} else {})"
  proof (intro equalityI subsetI)
    fix h assume h: "h \<in> ?H'"
    then have hs: "h \<in> set u \<or> h = y" and sub: "{h - 4 .. h} \<subseteq> insert y (set u)" by auto
    show "h \<in> ?H \<union> (if ?x = y + 1 \<and> 4 \<le> run then {y + 4} else {})"
    proof (cases "y \<in> {h - 4 .. h}")
      case False
      with sub have s2: "{h - 4 .. h} \<subseteq> set u" by auto
      then have "h \<in> set u" by auto
      with s2 show ?thesis by simp
    next
      case True
      have "h - 4 \<in> {h - 4 .. h}" by simp
      with sub have "h - 4 \<in> insert y (set u)" by blast
      then have "y \<le> h - 4" using gy by auto
      with True have h4: "h = y + 4" by simp
      have s3: "{y + 1 .. y + 4} \<subseteq> set u"
      proof
        fix z assume z: "z \<in> {y + 1 .. y + 4}"
        with h4 have "z \<in> {h - 4 .. h}" by simp
        with sub have "z \<in> insert y (set u)" by blast
        with z show "z \<in> set u" by auto
      qed
      then have "y + 1 \<in> set u" by auto
      from minx[OF this] yx have x1: "?x = y + 1" by simp
      have f: "y + 1 + int 3 = y + 4" by simp
      from s3 have "{?x .. ?x + int 3} \<subseteq> set u" unfolding x1 f .
      then have "3 < run" by (simp only: win)
      with x1 h4 show ?thesis by simp
    qed
  next
    fix h assume h: "h \<in> ?H \<union> (if ?x = y + 1 \<and> 4 \<le> run then {y + 4} else {})"
    show "h \<in> ?H'"
    proof (cases "h \<in> ?H")
      case True then show ?thesis by auto
    next
      case False
      with h have c: "?x = y + 1" "4 \<le> run" "h = y + 4" by (auto split: if_splits)
      then have "3 < run" by simp
      then have "{?x .. ?x + int 3} \<subseteq> set u" by (simp only: win)
      moreover have "?x + int 3 = y + 4" using c(1) by simp
      ultimately have "{?x .. y + 4} \<subseteq> set u" by (simp only:)
      then have s3: "{y + 1 .. y + 4} \<subseteq> set u" unfolding c(1) .
      then have "y + 4 \<in> set u" by auto
      moreover have "{y + 4 - 4 .. y + 4} \<subseteq> insert y (set u)"
      proof
        fix z assume "z \<in> {y + 4 - 4 .. y + 4}"
        then have "z = y \<or> z \<in> {y + 1 .. y + 4}" by auto
        with s3 show "z \<in> insert y (set u)" by auto
      qed
      ultimately show ?thesis using c by simp
    qed
  qed
  have fin: "finite ?H" by simp
  have last': "last (u @ [y]) = y" by simp
  have rev': "rev (u @ [y]) = y # rev u" by simp
  have nx: "(u @ [y]) ! (length u - 1) = ?x" using ne by (simp add: nth_append last_conv_nth)
  have ny: "(u @ [y]) ! (length u - 1 + 1) = y" using ne by (simp add: nth_append)
  have step0: "isStraight_step w i (run, best) =
       (if w ! i = w ! (i + 1) + 1
        then (run + 1, if run + 1 \<ge> 5 then max best (w ! (i - 3)) else best)
        else (1, best))" for w i
    by (simp add: isStraight_step_def Let_def)
  have step: "straight_scan (u @ [y]) =
       (if ?x = y + 1
        then (run + 1, if run + 1 \<ge> 5 then max best ((u @ [y]) ! (length u - 1 - 3)) else best)
        else (1, best))"
    unfolding straight_scan_snoc[OF ne] st step0 nx ny ..
  show ?thesis
  proof (cases "?x = y + 1")
    case False
    with H' have "?H' = ?H" by simp
    then have b: "best = Max (insert 0 ?H')" using i4 by simp
    have "(y # rev u) ! 1 \<noteq> y + int 1" using False v0 by simp
    with False b show ?thesis
      unfolding step scan_inv_def
      by (simp only: if_False prod.case last' rev') auto
  next
    case True
    have j2: "\<forall>j < run + 1. (y # rev u) ! j = y + int j"
    proof (intro allI impI)
      fix j assume j: "j < run + 1"
      show "(y # rev u) ! j = y + int j"
      proof (cases j)
        case 0 then show ?thesis by simp
      next
        case (Suc j')
        with j have "j' < run" by simp
        with i2 have "rev u ! j' = ?x + int j'" by blast
        with Suc True show ?thesis by simp
      qed
    qed
    have j3: "run + 1 < length (u @ [y]) \<longrightarrow> (y # rev u) ! (run + 1) \<noteq> y + int (run + 1)"
      using i3 True by (simp add: add.assoc)
    have b: "(if run + 1 \<ge> 5 then max best ((u @ [y]) ! (length u - 1 - 3)) else best)
               = Max (insert 0 ?H')"
    proof (cases "4 \<le> run")
      case False
      with H' have "?H' = ?H" by simp
      with False i4 show ?thesis by simp
    next
      case r4: True
      then have l4: "4 \<le> length u" using i1 by simp
      have "length u - 1 - 3 < length u" "length u - 1 - 3 = length u - Suc 3" using l4 by arith+
      then have "(u @ [y]) ! (length u - 1 - 3) = u ! (length u - Suc 3)"
        by (simp only: nth_append if_True)
      also have "\<dots> = rev u ! 3" using l4 by (simp add: rev_nth)
      also have "\<dots> = ?x + int 3"
      proof -
        from r4 have "3 < run" by simp
        with i2 show ?thesis by blast
      qed
      finally have e: "(u @ [y]) ! (length u - 1 - 3) = y + 4" using True by simp
      from H' True r4 have "?H' = insert (y + 4) ?H" by auto
      then have "Max (insert 0 ?H') = Max (insert (y + 4) (insert 0 ?H))"
        by (simp add: insert_commute)
      also have "\<dots> = max (y + 4) (Max (insert 0 ?H))"
        using fin by (intro Max_insert) simp_all
      finally show ?thesis using r4 e i4 by (simp add: max.commute)
    qed
    show ?thesis
      unfolding step scan_inv_def
      using True i1 j2 j3 b
      by (simp only: if_True prod.case last' rev') simp
  qed
qed

lemma straight_scan_inv:
  "u \<noteq> [] \<Longrightarrow> sorted_wrt (>) u \<Longrightarrow> scan_inv u (straight_scan u)"
proof (induction u rule: rev_nonempty_induct)
  case (single x)
  show ?case by (rule scan_inv_single)
next
  case (snoc y u)
  from snoc.prems have "sorted_wrt (>) u" by (simp add: sorted_wrt_append)
  with snoc.IH have "scan_inv u (straight_scan u)" by simp
  with snoc.prems snoc.hyps show ?case by (intro scan_inv_snoc)
qed

lemma sort_desc_array_from_set:
  "sorted_wrt (>) (sort_desc (array_from_set xs))"
  "set (sort_desc (array_from_set xs)) = set xs"
proof -
  have d: "distinct (array_from_set xs)" by (simp add: array_from_set_def)
  have "sorted_wrt (<) (sort (array_from_set xs))"
    using d by (simp add: strict_sorted_iff)
  then show "sorted_wrt (>) (sort_desc (array_from_set xs))"
    by (simp add: sort_desc_def sorted_wrt_rev)
  show "set (sort_desc (array_from_set xs)) = set xs"
    by (simp add: sort_desc_def array_from_set_def)
qed

lemma isStraight_scan:
  "isStraight ranks =
     (let u0 = sort_desc (array_from_set ranks);
          u = (if 14 \<in> set u0 then u0 @ [1] else u0)
      in if snd (straight_scan u) = 0 then None else Some (snd (straight_scan u)))"
  by (simp add: isStraight_def straight_scan_def Let_def)

lemma isStraight_spec:
  assumes ge: "\<forall>r \<in> set ranks. 2 \<le> r"
  shows "isStraight ranks = straight_spec (set ranks)"
proof -
  define u where "u = (if 14 \<in> set (sort_desc (array_from_set ranks))
                       then sort_desc (array_from_set ranks) @ [1]
                       else sort_desc (array_from_set ranks))"
  define S' where "S' = (if 14 \<in> set ranks then insert 1 (set ranks) else set ranks)"
  define H where "H = {h \<in> S'. {h - 4 .. h} \<subseteq> S'}"
  note u0 = sort_desc_array_from_set[of ranks]
  have su: "sorted_wrt (>) u" using u0 ge by (auto simp: u_def sorted_wrt_append)
  have set_u: "set u = S'" using u0(2) by (auto simp: u_def S'_def)
  have pos: "\<forall>e \<in> S'. 1 \<le> e" using ge by (auto simp: S'_def)
  have spec: "straight_spec (set ranks) = (if H = {} then None else Some (Max H))"
    by (simp add: straight_spec_def Let_def H_def S'_def)
  have isS: "isStraight ranks = (if snd (straight_scan u) = 0 then None else Some (snd (straight_scan u)))"
    by (simp add: isStraight_scan Let_def u_def)
  have fin: "finite H" using set_u by (auto simp: H_def intro: finite_subset[of _ "set u"])
  show ?thesis
  proof (cases "u = []")
    case True
    then have "set u = {}" by simp
    with set_u have "S' = {}" by simp
    then have "H = {}" by (simp add: H_def)
    moreover from True have "straight_scan u = (1, 0)" by (simp add: straight_scan_def)
    ultimately show ?thesis unfolding spec isS by simp
  next
    case False
    from straight_scan_inv[OF False su]
    have "snd (straight_scan u) = Max (insert 0 {h \<in> set u. {h - 4 .. h} \<subseteq> set u})"
      by (cases "straight_scan u") (simp add: scan_inv_def)
    then have best: "snd (straight_scan u) = Max (insert 0 H)" unfolding set_u H_def .
    show ?thesis
    proof (cases "H = {}")
      case True
      then have "Max (insert 0 H) = 0" by simp
      with True show ?thesis unfolding spec isS best by simp
    next
      case ne: False
      have h5: "5 \<le> h" if "h \<in> H" for h
      proof -
        from that have "h - 4 \<in> S'" by (auto simp: H_def)
        with pos have "1 \<le> h - 4" by blast
        then show ?thesis by simp
      qed
      have "Max H \<in> H" using fin ne by (rule Max_in)
      then have m5: "5 \<le> Max H" by (rule h5)
      have "Max (insert 0 H) = max 0 (Max H)" using fin ne by (rule Max_insert)
      with m5 have "Max (insert 0 H) = Max H" "Max (insert 0 H) \<noteq> 0" by simp_all
      with ne show ?thesis unfolding spec isS best by simp
    qed
  qed
qed

section \<open>The wheel\<close>

lemma sum_count_le:
  assumes "finite A"
  shows "sum (count_list xs) A \<le> length xs"
proof -
  have "sum (count_list xs) A \<le> sum (count_list xs) (A \<union> set xs)"
    using assms by (intro sum_mono2) auto
  also have "\<dots> = length xs" using assms by (intro sum_count_set) auto
  finally show ?thesis .
qed

lemma count_list_pos: "x \<in> set xs \<Longrightarrow> 1 \<le> count_list xs x"
  by (induction xs) auto

text \<open>Seven cards with the five ranks of the wheel among them: what the counts can be.\<close>

lemma wheel_counts:
  assumes len: "length cs = 7" and five: "{14, 2, 3, 4, 5} \<subseteq> rank ` set cs"
  shows "count_list (map rank cs) r \<le> 3"
    and "r \<noteq> t \<Longrightarrow> count_list (map rank cs) t = 3 \<Longrightarrow> count_list (map rank cs) r \<le> 1"
proof -
  let ?c = "count_list (map rank cs)"
  have "x \<in> set (map rank cs)" if "x \<in> {14, 2, 3, 4, 5}" for x
    using five that by auto
  then have "1 \<le> ?c x" if "x \<in> {14, 2, 3, 4, 5}" for x
    using that by (intro count_list_pos) blast
  then have p: "1 \<le> ?c 14" "1 \<le> ?c 2" "1 \<le> ?c 3" "1 \<le> ?c 4" "1 \<le> ?c 5"
    by simp_all
  have b0: "?c 14 + ?c 2 + ?c 3 + ?c 4 + ?c 5 \<le> 7"
    using sum_count_le[of "{14, 2, 3, 4, 5}" "map rank cs"] len by simp
  have b1: "?c x + (?c 14 + ?c 2 + ?c 3 + ?c 4 + ?c 5) \<le> 7" if "x \<notin> {14, 2, 3, 4, 5}" for x
    using sum_count_le[of "insert x {14, 2, 3, 4, 5}" "map rank cs"] len that by simp
  have le3: "?c x \<le> 3" for x
  proof (cases "x \<in> {14, 2, 3, 4, 5}")
    case True
    then show ?thesis using p b0 by auto
  next
    case False
    from b1[OF False] p show ?thesis by linarith
  qed
  show "?c r \<le> 3" by (rule le3)
  assume rt: "r \<noteq> t" and t3: "?c t = 3"
  have tin: "t \<in> {14, 2, 3, 4, 5}"
  proof (rule ccontr)
    assume "t \<notin> {14, 2, 3, 4, 5}"
    from b1[OF this] p t3 show False by linarith
  qed
  show "?c r \<le> 1"
  proof (cases "r \<in> {14, 2, 3, 4, 5}")
    case True
    with tin rt t3 p b0 show ?thesis by auto
  next
    case False
    from b1[OF False] have "?c r + (?c 14 + ?c 2 + ?c 3 + ?c 4 + ?c 5) \<le> 7" .
    moreover have "7 \<le> ?c 14 + ?c 2 + ?c 3 + ?c 4 + ?c 5" using tin t3 p by auto
    ultimately show ?thesis by linarith
  qed
qed

lemma groupsOf_set: "set (groupsOf m) = set m"
  by (simp add: groupsOf_def)

lemma groups_of_count:
  "set (sort_desc (map fst (filter (\<lambda>(r, c). c = k) (groupsOf (countsByRank cs)))))
     = {r. count_list (map rank cs) r = k \<and> k \<noteq> 0}"
  by (auto simp: sort_desc_def groupsOf_set countsByRank_set image_iff)

lemma groups_of_count_distinct:
  "distinct (sort_desc (map fst (filter (\<lambda>(r, c). c = k) (groupsOf (countsByRank cs)))))"
proof -
  have "mset (map fst (groupsOf (countsByRank cs))) = mset (map fst (countsByRank cs))"
    by (simp add: groupsOf_def)
  then have "distinct (map fst (groupsOf (countsByRank cs)))"
    using countsByRank_distinct[of cs] by (metis mset_eq_imp_distinct_iff)
  then have "distinct (map fst (filter (\<lambda>(r, c). c = k) (groupsOf (countsByRank cs))))"
    by (rule distinct_map_filter)
  then show ?thesis by (simp add: sort_desc_def)
qed

lemma ranksDesc_set: "set (sort_desc (map fst (countsByRank cs))) = rank ` set cs"
proof -
  have "fst ` set (countsByRank cs) = {r. count_list (map rank cs) r \<noteq> 0}"
    by (auto simp: countsByRank_set image_iff)
  also have "\<dots> = rank ` set cs" by (auto simp: count_list_0_iff)
  finally show ?thesis by (simp add: sort_desc_def)
qed

lemma wheel_straight_spec:
  assumes card: "card R \<le> 7" and fin: "finite R"
      and five: "{14, 2, 3, 4, 5} \<subseteq> R"
      and rng: "\<forall>r \<in> R. 2 \<le> r \<and> r \<le> 14"
  shows "straight_spec R = Some (if 6 \<in> R then (if 7 \<in> R then 7 else 6) else 5)"
proof -
  define S' where "S' = insert 1 R"
  define H where "H = {h \<in> S'. {h - 4 .. h} \<subseteq> S'}"
  define t :: int where "t = (if 6 \<in> R then (if 7 \<in> R then 7 else 6) else 5)"
  have "14 \<in> R" using five by simp
  then have "(if 14 \<in> R then insert 1 R else R) = S'" by (simp only: S'_def if_True)
  then have spec: "straight_spec R = (if H = {} then None else Some (Max H))"
    unfolding straight_spec_def Let_def H_def by (simp only:)
  have finH: "finite H" using fin by (simp add: H_def S'_def)
  have low: "{1, 2, 3, 4, 5} \<subseteq> S'" using five by (auto simp: S'_def)
  have t567: "t = 5 \<or> t = 6 \<or> t = 7" by (simp add: t_def)
  have tS: "{5 .. t} \<subseteq> S'"
  proof
    fix z :: int assume "z \<in> {5 .. t}"
    with t567 have "z = 5 \<or> (z = 6 \<and> 6 \<le> t) \<or> (z = 7 \<and> 7 \<le> t)" by auto
    then show "z \<in> S'" using low by (auto simp: S'_def t_def split: if_splits)
  qed
  have "{t - 4 .. t} \<subseteq> S'"
  proof
    fix z :: int assume z: "z \<in> {t - 4 .. t}"
    show "z \<in> S'"
    proof (cases "z \<le> 5")
      case True
      with z t567 have "z = 1 \<or> z = 2 \<or> z = 3 \<or> z = 4 \<or> z = 5" by auto
      with low show ?thesis by auto
    next
      case False
      with z have "z \<in> {5 .. t}" by simp
      with tS show ?thesis by blast
    qed
  qed
  moreover have "t \<in> S'" using tS t567 by auto
  ultimately have inT: "t \<in> H" by (simp add: H_def)
  have le: "h \<le> t" if h: "h \<in> H" for h
  proof (rule ccontr)
    assume n: "\<not> h \<le> t"
    with t567 have g: "6 \<le> h" by auto
    from h have hs: "h \<in> S'" and sub: "{h - 4 .. h} \<subseteq> S'" by (simp_all add: H_def)
    from hs g have hR: "h \<in> R" by (simp add: S'_def)
    with rng have h14: "h \<le> 14" by blast
    have inR: "z \<in> R" if "h - 4 \<le> z" "z \<le> h" "2 \<le> z" for z
    proof -
      from that have "z \<in> {h - 4 .. h}" by simp
      with sub have "z \<in> S'" by blast
      with that(3) show ?thesis by (simp add: S'_def)
    qed
    show False
    proof (cases "h \<le> 7")
      case True
      with g have "h = 6 \<or> h = 7" by auto
      then show False
      proof
        assume "h = 6"
        with hR n show False by (simp add: t_def split: if_splits)
      next
        assume h7: "h = 7"
        then have "6 \<in> R" using inR[of 6] by simp
        with h7 hR n show False by (simp add: t_def)
      qed
    next
      case False
      then have h8: "8 \<le> h" by simp
      show False
      proof (cases "h = 14")
        case True
        have "10 \<in> R" "11 \<in> R" "12 \<in> R" using inR[of 10] inR[of 11] inR[of 12] True by simp_all
        with five have "{14, 2, 3, 4, 5, 10, 11, 12} \<subseteq> R" by simp
        then have "card {14, 2, 3, 4, 5, 10, 11, 12 :: int} \<le> card R"
          using fin by (intro card_mono)
        with card show False by simp
      next
        case False
        with h14 have h13: "h \<le> 13" by simp
        have "h - 2 \<in> R" "h - 1 \<in> R" using inR[of "h - 2"] inR[of "h - 1"] h8 by simp_all
        with five hR have "{14, 2, 3, 4, 5, h - 2, h - 1, h} \<subseteq> R" by simp
        then have "card {14, 2, 3, 4, 5, h - 2, h - 1, h} \<le> card R"
          using fin by (intro card_mono)
        moreover have "card {14, 2, 3, 4, 5, h - 2, h - 1, h} = 8"
          using h8 h13 by simp
        ultimately show False using card by simp
      qed
    qed
  qed
  have "Max H = t" using finH inT le by (intro Max_eqI)
  with inT show ?thesis unfolding spec t_def by auto
qed

lemma wheel_rank7:
  assumes len: "length cs = 7"
      and rng: "\<forall>c \<in> set cs. 2 \<le> rank c \<and> rank c \<le> 14"
      and five: "{14, 2, 3, 4, 5} \<subseteq> rank ` set cs"
      and nf: "\<forall>s. length (filter (\<lambda>c. suit c = s) cs) < 5"
  shows "rank7 cs = (4, [Some (if 6 \<in> rank ` set cs then (if 7 \<in> rank ` set cs then 7 else 6) else 5)])"
proof -
  let ?groups = "groupsOf (countsByRank cs)"
  let ?ranksDesc = "sort_desc (map fst (countsByRank cs))"
  let ?threes = "sort_desc (map fst (filter (\<lambda>(r, c). c = 3) ?groups))"
  let ?pairs = "sort_desc (map fst (filter (\<lambda>(r, c). c = 2) ?groups))"
  note wc = wheel_counts[OF len five]
  have fl: "flushSuitOf (suitsOf cs) = None" using nf by (simp add: flushSuitOf_None)
  have quads: "\<not> (case ?groups of [] \<Rightarrow> False | g # _ \<Rightarrow> snd g = 4)"
  proof (cases ?groups)
    case Nil then show ?thesis by simp
  next
    case (Cons g gs)
    then have "g \<in> set ?groups" by simp
    then have "g \<in> set (countsByRank cs)" by (simp add: groupsOf_set)
    then have "snd g = count_list (map rank cs) (fst g)" by (auto simp: countsByRank_set)
    with wc(1)[of "fst g"] Cons show ?thesis by simp
  qed
  have t3: "count_list (map rank cs) t = 3" if "t \<in> set ?threes" for t
    using that unfolding groups_of_count by simp
  have p2: "count_list (map rank cs) p = 2" if "p \<in> set ?pairs" for p
    using that unfolding groups_of_count by simp
  have not2: "\<not> 2 \<le> length ?threes"
  proof
    assume l: "2 \<le> length ?threes"
    then have i: "0 < length ?threes" "1 < length ?threes" by linarith+
    have "?threes ! 0 \<noteq> ?threes ! 1"
      using groups_of_count_distinct[of 3 cs] i by (simp add: nth_eq_iff_index_eq)
    moreover have "?threes ! 0 \<in> set ?threes" "?threes ! 1 \<in> set ?threes"
      using i by (simp_all only: nth_mem)
    ultimately have "count_list (map rank cs) (?threes ! 0) \<le> 1"
      using wc(2)[of "?threes ! 0" "?threes ! 1"] t3 by blast
    moreover have "count_list (map rank cs) (?threes ! 0) = 3"
      using \<open>?threes ! 0 \<in> set ?threes\<close> by (rule t3)
    ultimately show False by simp
  qed
  have not32: "\<not> (1 \<le> length ?threes \<and> 1 \<le> length ?pairs)"
  proof
    assume l: "1 \<le> length ?threes \<and> 1 \<le> length ?pairs"
    then have "0 < length ?threes" "0 < length ?pairs" by linarith+
    then have "?threes ! 0 \<in> set ?threes" "?pairs ! 0 \<in> set ?pairs" by (simp_all only: nth_mem)
    then have c: "count_list (map rank cs) (?threes ! 0) = 3" "count_list (map rank cs) (?pairs ! 0) = 2"
      using t3 p2 by blast+
    then have "?pairs ! 0 \<noteq> ?threes ! 0" by auto
    from wc(2)[OF this c(1)] c(2) show False by simp
  qed
  have R: "set ?ranksDesc = rank ` set cs" by (rule ranksDesc_set)
  have "card (rank ` set cs) \<le> card (set cs)" by (intro card_image_le) simp
  also have "\<dots> \<le> length cs" by (rule card_length)
  finally have cardR: "card (rank ` set cs) \<le> 7" using len by simp
  have "isStraight ?ranksDesc = straight_spec (set ?ranksDesc)"
    using rng by (intro isStraight_spec) (auto simp: R)
  also have "\<dots> = Some (if 6 \<in> rank ` set cs then (if 7 \<in> rank ` set cs then 7 else 6) else 5)"
    unfolding R using cardR five rng by (intro wheel_straight_spec) auto
  finally have str: "isStraight ?ranksDesc
      = Some (if 6 \<in> rank ` set cs then (if 7 \<in> rank ` set cs then 7 else 6) else 5)" .
  show ?thesis
    unfolding rank7_eq_rank7_of fl
    using quads not2 not32 str
    by (simp add: rank7_of_def Let_def)
qed


text \<open>
  Claim C6, as amended. For seven cards of ranks 2 to 14 that contain an ace, a two, a three,
  a four and a five and no five cards of one suit, \<open>rank7\<close> returns category 4 (straight):
  no four of a kind and no full house is possible in such a hand. The single tiebreak is the
  top of the highest run among the ranks: 5 (not 14) when none of the cards is a six, 6 when
  there is a six and no seven, 7 when there are a six and a seven. On ranks from 2 upwards
  \<open>isStraight\<close> returns the top rank of the highest run of five consecutive ranks in the set
  of ranks, the ace counting as 1 as well, or nothing when there is no such run.
\<close>

theorem wheel_straight:
  "(length cards = 7 \<and> (\<forall>c \<in> set cards. 2 \<le> rank c \<and> rank c \<le> 14)
      \<and> {14, 2, 3, 4, 5} \<subseteq> rank ` set cards
      \<and> (\<forall>s. length (filter (\<lambda>c. suit c = s) cards) < 5)
     \<longrightarrow> rank7 cards
           = (4, [Some (if 6 \<in> rank ` set cards
                        then (if 7 \<in> rank ` set cards then 7 else 6) else 5)]))
   \<and> ((\<forall>r \<in> set ranks. 2 \<le> r) \<longrightarrow> isStraight ranks = straight_spec (set ranks))"
proof (intro conjI impI)
  assume a: "length cards = 7 \<and> (\<forall>c \<in> set cards. 2 \<le> rank c \<and> rank c \<le> 14)
      \<and> {14, 2, 3, 4, 5} \<subseteq> rank ` set cards
      \<and> (\<forall>s. length (filter (\<lambda>c. suit c = s) cards) < 5)"
  then have "length cards = 7" "\<forall>c \<in> set cards. 2 \<le> rank c \<and> rank c \<le> 14"
    "{14, 2, 3, 4, 5} \<subseteq> rank ` set cards"
    "\<forall>s. length (filter (\<lambda>c. suit c = s) cards) < 5"
    by blast+
  then show "rank7 cards
           = (4, [Some (if 6 \<in> rank ` set cards
                        then (if 7 \<in> rank ` set cards then 7 else 6) else 5)])"
    by (rule wheel_rank7)
next
  assume "\<forall>r \<in> set ranks. 2 \<le> r"
  then show "isStraight ranks = straight_spec (set ranks)" by (rule isStraight_spec)
qed

text \<open>
  Claim C6, as stated, fails for the wheel with a six and a queen, no flush: the six and the
  queen form no flush and no category above the straight, and the straight found is the one
  to the six, with tiebreak 6 and not 5.
\<close>

definition wheel_six_hand :: "card list" where
  "wheel_six_hand = [mk 14 Clubs, mk 2 Diamonds, mk 3 Hearts, mk 4 Spades, mk 5 Clubs,
                     mk 6 Diamonds, mk 12 Hearts]"

theorem wheel_with_six_counterexample:
  "length wheel_six_hand = 7
   \<and> take 5 (map rank wheel_six_hand) = [14, 2, 3, 4, 5]
   \<and> map (\<lambda>s. length (filter (\<lambda>c. suit c = s) wheel_six_hand))
       [Clubs, Diamonds, Hearts, Spades] = [2, 2, 2, 1]
   \<and> rank7 wheel_six_hand = (4, [Some 6])
   \<and> rank7 wheel_six_hand \<noteq> (4, [Some 5])"
  by (simp add: wheel_six_hand_def rank7_eval)

text \<open>The wheel with a six and a seven, no flush.\<close>

definition wheel_seven_hand :: "card list" where
  "wheel_seven_hand = [mk 14 Clubs, mk 2 Diamonds, mk 3 Hearts, mk 4 Spades, mk 5 Clubs,
                       mk 6 Diamonds, mk 7 Hearts]"

lemma wheel_hands_fit:
  assumes "h = wheel_hand \<or> h = [mk 14 Clubs, mk 2 Diamonds, mk 3 Hearts, mk 4 Spades, mk 5 Clubs,
                                   mk 6 Diamonds, mk 13 Hearts] \<or> h = wheel_seven_hand"
  shows "length h = 7 \<and> (\<forall>c \<in> set h. 2 \<le> rank c \<and> rank c \<le> 14)
      \<and> {14, 2, 3, 4, 5} \<subseteq> rank ` set h
      \<and> (\<forall>s. length (filter (\<lambda>c. suit c = s) h) < 5)"
proof -
  have c: "map (\<lambda>s. length (filter (\<lambda>c. suit c = s) h)) [Clubs, Diamonds, Hearts, Spades] = [2, 2, 2, 1]"
    using assms by (auto simp: wheel_hand_def wheel_seven_hand_def mk_def)
  have "length (filter (\<lambda>c. suit c = s) h) < 5" for s
    using c by (cases s) simp_all
  moreover have "length h = 7 \<and> (\<forall>c \<in> set h. 2 \<le> rank c \<and> rank c \<le> 14)
      \<and> {14, 2, 3, 4, 5} \<subseteq> rank ` set h"
    using assms by (auto simp: wheel_hand_def wheel_seven_hand_def mk_def)
  ultimately show ?thesis by blast
qed

theorem wheel_straight_witness:
  "length wheel_hand = 7
   \<and> list_all (\<lambda>c. 2 \<le> rank c \<and> rank c \<le> 14) wheel_hand
   \<and> {14, 2, 3, 4, 5} \<subseteq> rank ` set wheel_hand \<and> 6 \<notin> rank ` set wheel_hand
   \<and> map (\<lambda>s. length (filter (\<lambda>c. suit c = s) wheel_hand))
       [Clubs, Diamonds, Hearts, Spades] = [2, 2, 2, 1]
   \<and> rank7 wheel_hand = (4, [Some 5])
   \<and> rank7 [mk 14 Clubs, mk 2 Diamonds, mk 3 Hearts, mk 4 Spades, mk 5 Clubs,
             mk 6 Diamonds, mk 13 Hearts] = (4, [Some 6])
   \<and> length wheel_seven_hand = 7
   \<and> map (\<lambda>s. length (filter (\<lambda>c. suit c = s) wheel_seven_hand))
       [Clubs, Diamonds, Hearts, Spades] = [2, 2, 2, 1]
   \<and> rank7 wheel_seven_hand = (4, [Some 7])
   \<and> list_all (\<lambda>r. 2 \<le> r) [14, 5, 14, 4, 3, 2, 9 :: int]
   \<and> isStraight [14, 5, 14, 4, 3, 2, 9] = straight_spec {14, 5, 4, 3, 2, 9}
   \<and> isStraight [14, 5, 14, 4, 3, 2, 9] = Some 5"
proof -
  let ?k = "[mk 14 Clubs, mk 2 Diamonds, mk 3 Hearts, mk 4 Spades, mk 5 Clubs,
             mk 6 Diamonds, mk 13 Hearts]"
  have l: "length wheel_hand = 7" "length wheel_seven_hand = 7"
    by (simp_all add: wheel_hand_def wheel_seven_hand_def)
  have r: "list_all (\<lambda>c. 2 \<le> rank c \<and> rank c \<le> 14) wheel_hand"
    by (simp add: wheel_hand_def mk_def)
  have f: "{14, 2, 3, 4, 5} \<subseteq> rank ` set wheel_hand" by (simp add: wheel_hand_def mk_def)
  have s: "6 \<notin> rank ` set wheel_hand" by (simp add: wheel_hand_def mk_def)
  have c: "map (\<lambda>s. length (filter (\<lambda>c. suit c = s) wheel_hand))
       [Clubs, Diamonds, Hearts, Spades] = [2, 2, 2, 1]"
    "map (\<lambda>s. length (filter (\<lambda>c. suit c = s) wheel_seven_hand))
       [Clubs, Diamonds, Hearts, Spades] = [2, 2, 2, 1]"
    by (simp_all add: wheel_hand_def wheel_seven_hand_def mk_def)
  have six: "6 \<in> rank ` set ?k" "7 \<notin> rank ` set ?k"
    "6 \<in> rank ` set wheel_seven_hand" "7 \<in> rank ` set wheel_seven_hand"
    by (simp_all add: wheel_seven_hand_def mk_def)
  have g: "\<forall>r \<in> set [14, 5, 14, 4, 3, 2, 9::int]. 2 \<le> r" by simp
  have e: "isStraight [14, 5, 14, 4, 3, 2, 9] = Some 5"
    by (simp add: rank7_eval)
  have st: "set [14, 5, 14, 4, 3, 2, 9::int] = {14, 5, 4, 3, 2, 9}" by auto
  from wheel_straight[where cards = wheel_hand and ranks = "[14, 5, 14, 4, 3, 2, 9]"]
  have 1: "rank7 wheel_hand = (4, [Some 5])"
    and 2: "isStraight [14, 5, 14, 4, 3, 2, 9] = straight_spec (set [14, 5, 14, 4, 3, 2, 9])"
    using wheel_hands_fit[of wheel_hand] s g by simp_all
  from wheel_straight[where cards = ?k]
  have 3: "rank7 ?k = (4, [Some 6])"
    using wheel_hands_fit[of ?k] six by simp
  from wheel_straight[where cards = wheel_seven_hand]
  have 4: "rank7 wheel_seven_hand = (4, [Some 7])"
    using wheel_hands_fit[of wheel_seven_hand] six by simp
  from 1 2 3 4 l r f s c e st show ?thesis by simp
qed

section \<open>Chip accounting\<close>

definition stackSum :: "player list \<Rightarrow> int" where
  "stackSum ps = sum_list (map stack ps)"


subsection \<open>The side pots add up to the ledger\<close>







subsection \<open>The payout of a showdown\<close>











lemma bestStep_keeps:
  "fst acc \<noteq> [] \<and> snd acc \<noteq> None \<Longrightarrow>
     fst (bestStep r st acc) \<noteq> [] \<and> snd (bestStep r st acc) \<noteq> None"
  by (cases acc) (auto simp: bestStep_def Let_def split: option.splits)

lemma best_keeps:
  "fst acc \<noteq> [] \<and> snd acc \<noteq> None \<Longrightarrow> fst (fold (bestStep r) xs acc) \<noteq> []"
proof (induction xs arbitrary: acc)
  case Nil
  then show ?case by simp
next
  case (Cons x xs)
  from bestStep_keeps[OF Cons.prems] show ?case by (simp add: Cons.IH)
qed

lemma best_nonempty:
  assumes "xs \<noteq> []" and "map_of r (hd xs) \<noteq> None"
  shows "fst (fold (bestStep r) xs ([], None)) \<noteq> []"
proof -
  from assms obtain x ys v where xs: "xs = x # ys" and v: "map_of r x = Some v"
    by (cases xs) auto
  have "bestStep r x ([], None) = ([x], Some v)" using v by (simp add: bestStep_def)
  then show ?thesis unfolding xs by (simp add: best_keeps)
qed











subsection \<open>resolveShowdown\<close>

text \<open>
  The seats that \<open>resolveShowdown\<close> enters in \<open>rankBySeat\<close>: the seats of the contenders, the
  players in hand who hold cards. A side pot is claimed when one of its eligible seats is
  among them; the loop over the pots skips a pot that is not (\<open>elig.length === 0\<close>), and the
  chips of that pot are credited to nobody. A showdown is settled when it had a single
  contender, who takes the whole pot, or every side pot of it was claimed.
\<close>

definition contenderSeats :: "player list \<Rightarrow> nat list" where
  "contenderSeats ps = map (\<lambda>i. seat (ps ! i)) (contendersOf ps)"

definition claimed :: "player list \<Rightarrow> sidePot \<Rightarrow> bool" where
  "claimed ps sp \<longleftrightarrow> list_ex (\<lambda>st. st \<in> set (contenderSeats ps)) (eligibleSeats sp)"

definition settled :: "engine \<Rightarrow> bool" where
  "settled s \<longleftrightarrow>
     length (contendersOf (players s)) = 1 \<or> list_all (claimed (players s)) (pots s)"





lemma buildSidePots_cong:
  "players s' = players s \<Longrightarrow> totalBets s' = totalBets s \<Longrightarrow> buildSidePots s' = buildSidePots s"
  by (simp add: buildSidePots_def)






subsection \<open>The books of the table\<close>











subsection \<open>commitChips\<close>


subsection \<open>playerAction\<close>





subsection \<open>The end of a betting round\<close>




subsection \<open>addPlayer and startHand\<close>





subsection \<open>Sequences of calls\<close>

text \<open>
  A call of the engine by the room layer: \<open>addPlayer\<close>, \<open>startHand\<close> (with the deck that
  \<open>makeDeck\<close> returns) or \<open>playerAction\<close>. \<open>perform\<close> makes one call on a table and keeps
  count of the chips bought in: a successful \<open>addPlayer\<close> buys in the stack it stores. It
  returns \<open>None\<close> where the sequence of calls stops being valid: the engine throws,
  \<open>startHand\<close> is called while a hand is being played (it empties the pot), or an action ends
  in a showdown that is not settled.
\<close>

datatype call =
    AddPlayer string string real bool
  | StartHand "card list"
  | PlayerAction string action "real option"

fun perform :: "call \<Rightarrow> int \<times> engine \<Rightarrow> (int \<times> engine) option" where
  "perform (AddPlayer pid nm stk owner) (b, s) =
     (case addPlayer s pid nm stk owner of
        (ok, s') \<Rightarrow> Some (if ok then b + max 1 \<lfloor>stk\<rfloor> else b, s'))"
| "perform (StartHand newDeck) (b, s) =
     (if bettingStage (stage s) then None
      else case startHand newDeck s of Inl e \<Rightarrow> None | Inr s' \<Rightarrow> Some (b, s'))"
| "perform (PlayerAction pid kind amt) (b, s) =
     (case playerAction s pid kind amt of
        Inl e \<Rightarrow> None
      | Inr (ok, s') \<Rightarrow> if stage s' = Showdown \<and> \<not> settled s' then None else Some (b, s'))"

fun perform_all :: "call list \<Rightarrow> int \<times> engine \<Rightarrow> (int \<times> engine) option" where
  "perform_all [] x = Some x"
| "perform_all (c # cs) x = (case perform c x of None \<Rightarrow> None | Some y \<Rightarrow> perform_all cs y)"













section \<open>Showdown: the tied winners of a pot\<close>

text \<open>
  The comparison of two ranked hands in the loop over the eligible seats: a hand beats
  another with a higher category, or the same category and a tiebreak that is greater at
  the first position where the two differ (missing entries count as 0); two hands tie when
  neither beats the other.
\<close>

definition beats :: "rankResult \<Rightarrow> rankResult \<Rightarrow> bool" where
  "beats a b \<longleftrightarrow> fst a > fst b \<or> (fst a = fst b \<and> tiebreakCmp (snd a) (snd b) > 0)"

definition ties :: "rankResult \<Rightarrow> rankResult \<Rightarrow> bool" where
  "ties a b \<longleftrightarrow> fst a = fst b \<and> tiebreakCmp (snd a) (snd b) = 0"

lemma tb_at_beyond: "length t \<le> i \<Longrightarrow> tb_at t i = 0"
  by (simp add: tb_at_def js_at_def)

lemma tiebreakCmp_cases:
  "(tiebreakCmp ta tb = 0 \<and> (\<forall>i. tb_at ta i = tb_at tb i))
   \<or> (\<exists>i. tiebreakCmp ta tb = tb_at ta i - tb_at tb i \<and> tb_at ta i \<noteq> tb_at tb i
          \<and> (\<forall>j < i. tb_at ta j = tb_at tb j))"
proof (cases "find (\<lambda>i. tb_at ta i \<noteq> tb_at tb i) [0 ..< max (length ta) (length tb)]")
  case None
  then have eq: "\<forall>i < max (length ta) (length tb). tb_at ta i = tb_at tb i"
    by (auto simp: find_None_iff)
  have "tb_at ta i = tb_at tb i" for i
  proof (cases "i < max (length ta) (length tb)")
    case True
    with eq show ?thesis by blast
  next
    case False
    then show ?thesis by (simp add: tb_at_beyond)
  qed
  with None show ?thesis by (simp add: tiebreakCmp_def)
next
  case (Some i)
  then obtain k where k: "k < length [0 ..< max (length ta) (length tb)]"
      "tb_at ta ([0 ..< max (length ta) (length tb)] ! k) \<noteq> tb_at tb ([0 ..< max (length ta) (length tb)] ! k)"
      "i = [0 ..< max (length ta) (length tb)] ! k"
      "\<forall>j < k. \<not> tb_at ta ([0 ..< max (length ta) (length tb)] ! j) \<noteq> tb_at tb ([0 ..< max (length ta) (length tb)] ! j)"
    unfolding find_Some_iff by blast
  from k(1,3) have ik: "i = k" by simp
  have "\<forall>j < i. tb_at ta j = tb_at tb j"
  proof (intro allI impI)
    fix j assume "j < i"
    with k(4) ik k(1) show "tb_at ta j = tb_at tb j" by simp
  qed
  moreover have "tb_at ta i \<noteq> tb_at tb i" using k(2) k(3) by simp
  moreover have "tiebreakCmp ta tb = tb_at ta i - tb_at tb i" using Some by (simp add: tiebreakCmp_def)
  ultimately show ?thesis by blast
qed

text \<open>The lexicographic order on the sequences of tiebreak values.\<close>

definition lexlt :: "(nat \<Rightarrow> int) \<Rightarrow> (nat \<Rightarrow> int) \<Rightarrow> bool" where
  "lexlt f g \<longleftrightarrow> (\<exists>i. f i < g i \<and> (\<forall>j < i. f j = g j))"

lemma lexlt_trans:
  assumes "lexlt f g" and "lexlt g h"
  shows "lexlt f h"
proof -
  from assms obtain i k where i: "f i < g i" "\<forall>j < i. f j = g j"
    and k: "g k < h k" "\<forall>j < k. g j = h j"
    unfolding lexlt_def by blast
  show ?thesis
  proof (cases "i \<le> k")
    case True
    have "f i < h i"
    proof (cases "i = k")
      case True
      with i k show ?thesis by simp
    next
      case False
      with True have "i < k" by simp
      with k(2) i(1) show ?thesis by simp
    qed
    moreover have "\<forall>j < i. f j = h j" using i(2) k(2) True by simp
    ultimately show ?thesis unfolding lexlt_def by blast
  next
    case False
    then have ki: "k < i" by simp
    then have "f k < h k" using i(2) k(1) by simp
    moreover have "\<forall>j < k. f j = h j" using i(2) k(2) ki by simp
    ultimately show ?thesis unfolding lexlt_def by blast
  qed
qed

lemma lexlt_irrefl: "\<not> lexlt f f"
  by (simp add: lexlt_def)

lemma tiebreakCmp_pos: "0 < tiebreakCmp ta tb \<longleftrightarrow> lexlt (tb_at tb) (tb_at ta)"
proof
  assume p: "0 < tiebreakCmp ta tb"
  from tiebreakCmp_cases[of ta tb] p obtain i where
    "tiebreakCmp ta tb = tb_at ta i - tb_at tb i" "\<forall>j < i. tb_at ta j = tb_at tb j"
    by auto
  with p show "lexlt (tb_at tb) (tb_at ta)" unfolding lexlt_def by (intro exI[of _ i]) simp
next
  assume "lexlt (tb_at tb) (tb_at ta)"
  then obtain k where k: "tb_at tb k < tb_at ta k" "\<forall>j < k. tb_at tb j = tb_at ta j"
    unfolding lexlt_def by blast
  from tiebreakCmp_cases[of ta tb]
  show "0 < tiebreakCmp ta tb"
  proof
    assume "tiebreakCmp ta tb = 0 \<and> (\<forall>i. tb_at ta i = tb_at tb i)"
    with k(1) show ?thesis by simp
  next
    assume "\<exists>i. tiebreakCmp ta tb = tb_at ta i - tb_at tb i \<and> tb_at ta i \<noteq> tb_at tb i
          \<and> (\<forall>j < i. tb_at ta j = tb_at tb j)"
    then obtain i where i: "tiebreakCmp ta tb = tb_at ta i - tb_at tb i" "tb_at ta i \<noteq> tb_at tb i"
      "\<forall>j < i. tb_at ta j = tb_at tb j" by blast
    have "i = k"
    proof (rule ccontr)
      assume "i \<noteq> k"
      then have "i < k \<or> k < i" by arith
      then show False
      proof
        assume "i < k" with k(2) i(2) show False by simp
      next
        assume "k < i" with i(3) k(1) show False by simp
      qed
    qed
    with i(1) k(1) show ?thesis by simp
  qed
qed

lemma tiebreakCmp_zero: "tiebreakCmp ta tb = 0 \<longleftrightarrow> tb_at ta = tb_at tb"
proof
  assume z: "tiebreakCmp ta tb = 0"
  from tiebreakCmp_cases[of ta tb] z have "\<forall>i. tb_at ta i = tb_at tb i" by auto
  then show "tb_at ta = tb_at tb" by (intro ext) simp
next
  assume e: "tb_at ta = tb_at tb"
  from tiebreakCmp_cases[of ta tb] show "tiebreakCmp ta tb = 0"
    by (auto simp: e)
qed

lemma tiebreakCmp_neg: "tiebreakCmp ta tb < 0 \<longleftrightarrow> lexlt (tb_at ta) (tb_at tb)"
proof
  assume p: "tiebreakCmp ta tb < 0"
  from tiebreakCmp_cases[of ta tb] p obtain i where
    "tiebreakCmp ta tb = tb_at ta i - tb_at tb i" "\<forall>j < i. tb_at ta j = tb_at tb j"
    by auto
  with p show "lexlt (tb_at ta) (tb_at tb)" unfolding lexlt_def by (intro exI[of _ i]) simp
next
  assume l: "lexlt (tb_at ta) (tb_at tb)"
  then have "0 < tiebreakCmp tb ta" by (simp add: tiebreakCmp_pos)
  have "\<not> 0 < tiebreakCmp ta tb"
  proof
    assume "0 < tiebreakCmp ta tb"
    then have "lexlt (tb_at tb) (tb_at ta)" by (simp add: tiebreakCmp_pos)
    with l have "lexlt (tb_at ta) (tb_at ta)" by (rule lexlt_trans)
    then show False by (simp add: lexlt_irrefl)
  qed
  moreover have "tiebreakCmp ta tb \<noteq> 0"
  proof
    assume "tiebreakCmp ta tb = 0"
    then have "tb_at ta = tb_at tb" by (simp add: tiebreakCmp_zero)
    with l show False by (simp add: lexlt_irrefl)
  qed
  ultimately show "tiebreakCmp ta tb < 0" by simp
qed

lemma beats_trans: "beats a b \<Longrightarrow> beats b c \<Longrightarrow> beats a c"
  unfolding beats_def tiebreakCmp_pos by (auto intro: lexlt_trans)

lemma beats_ties: "beats a b \<Longrightarrow> ties b c \<Longrightarrow> beats a c"
  unfolding beats_def ties_def tiebreakCmp_pos tiebreakCmp_zero by auto

lemma ties_beats: "ties a b \<Longrightarrow> beats b c \<Longrightarrow> beats a c"
  unfolding beats_def ties_def tiebreakCmp_pos tiebreakCmp_zero by auto

lemma ties_refl: "ties a a"
  by (simp add: ties_def tiebreakCmp_zero)

lemma ties_sym: "ties a b \<Longrightarrow> ties b a"
  by (simp add: ties_def tiebreakCmp_zero)

lemma ties_trans: "ties a b \<Longrightarrow> ties b c \<Longrightarrow> ties a c"
  by (simp add: ties_def tiebreakCmp_zero)

lemma beats_irrefl: "\<not> beats a a"
  by (simp add: beats_def tiebreakCmp_pos lexlt_irrefl)

lemma beats_or_ties: "beats a b \<or> ties a b \<or> beats b a"
proof -
  have "0 < tiebreakCmp (snd a) (snd b) \<or> tiebreakCmp (snd a) (snd b) = 0
        \<or> tiebreakCmp (snd a) (snd b) < 0" by arith
  then have "0 < tiebreakCmp (snd a) (snd b) \<or> tiebreakCmp (snd a) (snd b) = 0
        \<or> 0 < tiebreakCmp (snd b) (snd a)"
    by (simp add: tiebreakCmp_neg tiebreakCmp_pos)
  then show ?thesis unfolding beats_def ties_def by auto
qed

lemma ties_iff: "ties a b \<longleftrightarrow> \<not> beats a b \<and> \<not> beats b a"
proof
  assume t: "ties a b"
  show "\<not> beats a b \<and> \<not> beats b a"
  proof (intro conjI notI)
    assume "beats a b"
    with ties_sym[OF t] have "beats b b" by (rule ties_beats)
    then show False by (simp add: beats_irrefl)
  next
    assume "beats b a"
    with t have "beats a a" by (rule ties_beats)
    then show False by (simp add: beats_irrefl)
  qed
next
  assume "\<not> beats a b \<and> \<not> beats b a"
  with beats_or_ties[of a b] show "ties a b" by blast
qed

text \<open>
  The tied winners of a pot in the words of the specification: among the eligible seats that
  have a ranked hand, those whose hand no other such seat beats, in the order of the eligible
  seats.
\<close>

definition rank_of :: "(nat \<times> rankResult) list \<Rightarrow> nat \<Rightarrow> rankResult" where
  "rank_of rankBySeat st = (case map_of rankBySeat st of None \<Rightarrow> (0, []) | Some r \<Rightarrow> r)"

definition tied_winners_spec :: "(nat \<times> rankResult) list \<Rightarrow> nat list \<Rightarrow> nat list" where
  "tied_winners_spec rankBySeat seats =
     (let elig = filter (\<lambda>st. map_of rankBySeat st \<noteq> None) seats
      in filter (\<lambda>st. \<not> list_ex (\<lambda>st'. beats (rank_of rankBySeat st') (rank_of rankBySeat st)) elig)
                elig)"

lemma bestStep_first:
  "map_of r st \<noteq> None \<Longrightarrow> bestStep r st ([], None) = ([st], Some (rank_of r st))"
  by (auto simp: bestStep_def rank_of_def)

lemma bestStep_next:
  "map_of r st \<noteq> None \<Longrightarrow>
   bestStep r st (best, Some b) =
     (if beats (rank_of r st) b then ([st], Some (rank_of r st))
      else if ties (rank_of r st) b then (best @ [st], Some b)
      else (best, Some b))"
  by (auto simp: bestStep_def rank_of_def beats_def ties_def Let_def)

lemma best_fold:
  assumes "\<forall>st \<in> set xs. map_of r st \<noteq> None" and "xs \<noteq> []"
  shows "\<exists>b. snd (fold (bestStep r) xs ([], None)) = Some b
           \<and> b \<in> rank_of r ` set xs
           \<and> (\<forall>st \<in> set xs. \<not> beats (rank_of r st) b)
           \<and> fst (fold (bestStep r) xs ([], None)) = filter (\<lambda>st. ties (rank_of r st) b) xs"
  using assms
proof (induction xs rule: rev_induct)
  case Nil
  then show ?case by simp
next
  case (snoc x ys)
  from snoc.prems have hx: "map_of r x \<noteq> None" and hys: "\<forall>st \<in> set ys. map_of r st \<noteq> None"
    by simp_all
  let ?rx = "rank_of r x"
  show ?case
  proof (cases "ys = []")
    case True
    then have "fold (bestStep r) (ys @ [x]) ([], None) = ([x], Some ?rx)"
      using hx by (simp add: bestStep_first)
    with True show ?thesis
      by (intro exI[of _ ?rx]) (simp add: ties_refl beats_irrefl)
  next
    case False
    from snoc.IH[OF hys False] obtain b where
      sb: "snd (fold (bestStep r) ys ([], None)) = Some b"
      and bm: "b \<in> rank_of r ` set ys"
      and nb: "\<forall>st \<in> set ys. \<not> beats (rank_of r st) b"
      and fb: "fst (fold (bestStep r) ys ([], None)) = filter (\<lambda>st. ties (rank_of r st) b) ys"
      by blast
    define best where "best = filter (\<lambda>st. ties (rank_of r st) b) ys"
    have acc: "fold (bestStep r) ys ([], None) = (best, Some b)"
      using sb fb by (simp add: best_def prod_eq_iff)
    have step: "fold (bestStep r) (ys @ [x]) ([], None) =
       (if beats ?rx b then ([x], Some ?rx)
        else if ties ?rx b then (best @ [x], Some b)
        else (best, Some b))"
      using hx by (simp add: acc bestStep_next)
    show ?thesis
    proof (cases "beats ?rx b")
      case True
      have none: "\<not> beats (rank_of r st) ?rx \<and> \<not> ties (rank_of r st) ?rx" if "st \<in> set ys" for st
      proof (intro conjI notI)
        assume "beats (rank_of r st) ?rx"
        then have "beats (rank_of r st) b" using True by (rule beats_trans)
        with nb that show False by blast
      next
        assume "ties (rank_of r st) ?rx"
        then have "beats (rank_of r st) b" using True by (rule ties_beats)
        with nb that show False by blast
      qed
      then have "filter (\<lambda>st. ties (rank_of r st) ?rx) ys = []"
        by (simp add: filter_empty_conv)
      with True none show ?thesis
        unfolding step by (intro exI[of _ ?rx]) (simp add: ties_refl beats_irrefl)
    next
      case nbx: False
      show ?thesis
      proof (cases "ties ?rx b")
        case True
        with nbx bm nb show ?thesis
          unfolding step by (intro exI[of _ b]) (auto simp: best_def)
      next
        case False
        with nbx bm nb show ?thesis
          unfolding step by (intro exI[of _ b]) (auto simp: best_def)
      qed
    qed
  qed
qed

lemma best_is_tied_winners:
  "fst (fold (bestStep r) (filter (\<lambda>st. map_of r st \<noteq> None) seats) ([], None))
     = tied_winners_spec r seats"
proof -
  define elig where "elig = filter (\<lambda>st. map_of r st \<noteq> None) seats"
  have h: "\<forall>st \<in> set elig. map_of r st \<noteq> None" by (simp add: elig_def)
  show ?thesis
  proof (cases "elig = []")
    case True
    then show ?thesis
      unfolding tied_winners_spec_def Let_def elig_def[symmetric] by simp
  next
    case False
    from best_fold[OF h False] obtain b where
      bm: "b \<in> rank_of r ` set elig"
      and nb: "\<forall>st \<in> set elig. \<not> beats (rank_of r st) b"
      and fb: "fst (fold (bestStep r) elig ([], None)) = filter (\<lambda>st. ties (rank_of r st) b) elig"
      by blast
    from bm obtain s0 where s0: "s0 \<in> set elig" "b = rank_of r s0" by blast
    have "ties (rank_of r st) b \<longleftrightarrow> \<not> list_ex (\<lambda>st'. beats (rank_of r st') (rank_of r st)) elig"
      if st: "st \<in> set elig" for st
    proof
      assume t: "ties (rank_of r st) b"
      show "\<not> list_ex (\<lambda>st'. beats (rank_of r st') (rank_of r st)) elig"
      proof
        assume "list_ex (\<lambda>st'. beats (rank_of r st') (rank_of r st)) elig"
        then obtain st' where st': "st' \<in> set elig" "beats (rank_of r st') (rank_of r st)"
          by (auto simp: list_ex_iff)
        from st'(2) t have "beats (rank_of r st') b" by (rule beats_ties)
        with nb st'(1) show False by blast
      qed
    next
      assume n: "\<not> list_ex (\<lambda>st'. beats (rank_of r st') (rank_of r st)) elig"
      with s0 have "\<not> beats b (rank_of r st)" by (auto simp: list_ex_iff)
      moreover from nb st have "\<not> beats (rank_of r st) b" by blast
      ultimately show "ties (rank_of r st) b" by (simp add: ties_iff)
    qed
    then have "filter (\<lambda>st. ties (rank_of r st) b) elig
                 = filter (\<lambda>st. \<not> list_ex (\<lambda>st'. beats (rank_of r st') (rank_of r st)) elig) elig"
      by (intro filter_cong refl)
    with fb show ?thesis
      unfolding tied_winners_spec_def Let_def elig_def[symmetric] by simp
  qed
qed

section \<open>Showdown: what every seat is credited\<close>

text \<open>
  The share of a seat in a pot of amount \<open>A\<close> with the tied winners \<open>ws\<close>, in the words of the
  specification: a winner gets \<open>floor(A / k)\<close>, and one chip more when it is among the first
  \<open>A mod k\<close> winners in ascending seat order, that is when fewer than \<open>A mod k\<close> winners have a
  lower seat; any other seat gets nothing.
\<close>

definition share_spec :: "int \<Rightarrow> nat list \<Rightarrow> nat \<Rightarrow> int" where
  "share_spec A ws st =
     (if st \<in> set ws
      then A div int (length ws)
           + (if int (length (filter (\<lambda>w. w < st) ws)) < A mod int (length ws) then 1 else 0)
      else 0)"

lemma sorted_filter_less:
  assumes s: "sorted xs" and d: "distinct xs" and i: "i < length (xs :: nat list)"
  shows "filter (\<lambda>w. w < xs ! i) xs = take i xs"
proof -
  have st: "sorted_wrt (<) xs" using s d by (simp add: strict_sorted_iff)
  have a: "\<forall>x \<in> set (take i xs). x < xs ! i"
  proof
    fix x assume "x \<in> set (take i xs)"
    then obtain j where j: "j < length (take i xs)" "x = take i xs ! j"
      by (auto simp: in_set_conv_nth)
    then have "j < i" "x = xs ! j" by simp_all
    with st i show "x < xs ! i" by (simp add: sorted_wrt_nth_less)
  qed
  have b: "\<forall>x \<in> set (drop i xs). \<not> x < xs ! i"
  proof
    fix x assume "x \<in> set (drop i xs)"
    then obtain j where j: "j < length (drop i xs)" "x = drop i xs ! j"
      by (auto simp: in_set_conv_nth)
    then have "i + j < length xs" "x = xs ! (i + j)" by simp_all
    with s have "xs ! i \<le> x" by (simp add: sorted_nth_mono)
    then show "\<not> x < xs ! i" by simp
  qed
  have "filter (\<lambda>w. w < xs ! i) xs
          = filter (\<lambda>w. w < xs ! i) (take i xs) @ filter (\<lambda>w. w < xs ! i) (drop i xs)"
    by (metis append_take_drop_id filter_append)
  also have "\<dots> = take i xs" using a b by (simp add: filter_id_conv filter_empty_conv)
  finally show ?thesis .
qed

lemma sorted_index_count:
  assumes d: "distinct (ws :: nat list)" and i: "i < length ws"
  shows "length (filter (\<lambda>w. w < sort ws ! i) ws) = i"
proof -
  have "length (filter (\<lambda>w. w < sort ws ! i) ws) = size (filter_mset (\<lambda>w. w < sort ws ! i) (mset ws))"
    by (metis mset_filter size_mset)
  also have "\<dots> = size (filter_mset (\<lambda>w. w < sort ws ! i) (mset (sort ws)))" by simp
  also have "\<dots> = length (filter (\<lambda>w. w < sort ws ! i) (sort ws))"
    by (metis mset_filter size_mset)
  also have "\<dots> = length (take i (sort ws))"
    using d i by (simp add: sorted_filter_less)
  finally show ?thesis using i by simp
qed

lemma splitPot_share:
  assumes d: "distinct bs" and ne: "bs \<noteq> []"
  shows "won_get (splitPot A bs won) st = won_get won st + share_spec A bs st"
proof (cases "st \<in> set bs")
  case False
  with splitPot_others[OF d ne False] show ?thesis by (simp add: share_spec_def)
next
  case True
  then have "st \<in> set (sort bs)" by simp
  then have "\<exists>i < length (sort bs). sort bs ! i = st"
    unfolding in_set_conv_nth .
  then obtain i where i: "i < length (sort bs)" "sort bs ! i = st" by blast
  then have il: "i < length bs" by simp
  from sorted_index_count[OF d il] i(2) have c: "length (filter (\<lambda>w. w < st) bs) = i" by simp
  from splitPot_credit[OF d ne il, of A won] i(2) True c show ?thesis
    by (simp add: share_spec_def)
qed

lemma payPot_share:
  assumes d: "distinct (eligibleSeats sp)"
  shows "won_get (payPot r sp won) st
           = won_get won st + share_spec (amount sp) (tied_winners_spec r (eligibleSeats sp)) st"
proof -
  let ?elig = "filter (\<lambda>st. map_of r st \<noteq> None) (eligibleSeats sp)"
  let ?best = "fst (fold (bestStep r) ?elig ([], None))"
  have b: "?best = tied_winners_spec r (eligibleSeats sp)" by (rule best_is_tied_winners)
  show ?thesis
  proof (cases "?elig = []")
    case True
    then have "tied_winners_spec r (eligibleSeats sp) = []"
      by (simp add: tied_winners_spec_def)
    with True show ?thesis by (simp add: payPot_def share_spec_def)
  next
    case False
    then have "hd ?elig \<in> set ?elig" by (rule hd_in_set)
    then have "map_of r (hd ?elig) \<noteq> None" by simp
    from best_nonempty[OF False this] have ne: "?best \<noteq> []" .
    have "distinct (tied_winners_spec r (eligibleSeats sp))"
      using d by (simp add: tied_winners_spec_def)
    then have db: "distinct ?best" unfolding b .
    have pp: "payPot r sp won = splitPot (amount sp) ?best won"
      using False by (simp add: payPot_def Let_def)
    show ?thesis
      unfolding pp splitPot_share[OF db ne] unfolding b ..
  qed
qed

lemma payPots_share:
  "\<forall>sp \<in> set sps. distinct (eligibleSeats sp) \<Longrightarrow>
   won_get (fold (payPot r) sps won) st
     = won_get won st
       + sum_list (map (\<lambda>sp. share_spec (amount sp) (tied_winners_spec r (eligibleSeats sp)) st) sps)"
proof (induction sps arbitrary: won)
  case Nil
  then show ?case by simp
next
  case (Cons sp sps)
  have "won_get (fold (payPot r) sps (payPot r sp won)) st
     = won_get (payPot r sp won) st
       + sum_list (map (\<lambda>sp. share_spec (amount sp) (tied_winners_spec r (eligibleSeats sp)) st) sps)"
    using Cons.prems by (intro Cons.IH) simp
  moreover have "won_get (payPot r sp won) st
           = won_get won st + share_spec (amount sp) (tied_winners_spec r (eligibleSeats sp)) st"
    using Cons.prems by (intro payPot_share) simp
  ultimately show ?case by simp
qed

text \<open>\<open>wonBySeat\<close> has one entry per seat.\<close>

lemma shares_distinct:
  "distinct (map fst won) \<Longrightarrow>
   distinct (map fst (fold (\<lambda>st w. AList.update st (won_get w st + share) w) bs won))"
  by (induction bs arbitrary: won) (simp_all add: distinct_update)

lemma giveRemainder_distinct:
  "distinct (map fst won) \<Longrightarrow> distinct (map fst (giveRemainder bs r idx won))"
proof (induction bs r idx won rule: giveRemainder.induct)
  case (1 bs r idx won)
  show ?case
  proof (cases "r > 0")
    case False
    with "1.prems" show ?thesis by (simp add: giveRemainder.simps)
  next
    case True
    let ?st = "bs ! (idx mod length bs)"
    have step: "giveRemainder bs r idx won
        = giveRemainder bs (r - 1) (idx + 1) (AList.update ?st (won_get won ?st + 1) won)"
      using True by (subst giveRemainder.simps) (simp add: Let_def)
    have "distinct (map fst (AList.update ?st (won_get won ?st + 1) won))"
      using "1.prems" by (rule distinct_update)
    from "1.IH"[OF True refl this] show ?thesis unfolding step .
  qed
qed

lemma payPot_distinct:
  "distinct (map fst won) \<Longrightarrow> distinct (map fst (payPot r sp won))"
  by (simp add: payPot_def Let_def splitPot_def giveRemainder_distinct shares_distinct)

lemma payPots_distinct:
  "distinct (map fst won) \<Longrightarrow> distinct (map fst (fold (payPot r) sps won))"
  by (induction sps arbitrary: won) (simp_all add: payPot_distinct)

lemma creditStacks_nth:
  "distinct (map fst won) \<Longrightarrow> st < length ps \<Longrightarrow>
   stack (creditStacks won ps ! st) = stack (ps ! st) + won_get won st"
proof (induction won arbitrary: ps)
  case Nil
  then show ?case by (simp add: creditStacks_def won_get_def)
next
  case (Cons e won)
  obtain k amt where e: "e = (k, amt)" by (cases e)
  let ?ps = "ps[k := (ps ! k)\<lparr>stack := stack (ps ! k) + amt\<rparr>]"
  have c: "creditStacks (e # won) ps = creditStacks won ?ps"
    by (simp add: creditStacks_def e)
  have ih: "stack (creditStacks won ?ps ! st) = stack (?ps ! st) + won_get won st"
    using Cons.prems by (intro Cons.IH) simp_all
  show ?case
  proof (cases "k = st")
    case True
    from Cons.prems(1) have "st \<notin> fst ` set won" by (simp add: e True)
    then have "map_of won st = None" by (simp add: map_of_eq_None_iff)
    then have "won_get won st = 0" by (simp add: won_get_def)
    with ih True Cons.prems(2) show ?thesis
      unfolding c by (simp add: won_get_def e)
  next
    case False
    with ih show ?thesis unfolding c by (simp add: won_get_def e)
  qed
qed

lemma buildSidePots_loop_distinct:
  "sp \<in> set (buildSidePots_loop ps n remain) \<Longrightarrow> distinct (eligibleSeats sp)"
proof (induction "posSum remain" arbitrary: remain rule: less_induct)
  case less
  show ?case
  proof (cases "\<exists>v \<in> set remain. v > 0")
    case False
    then have "buildSidePots_loop ps n remain = []"
      by (subst buildSidePots_loop.simps) simp
    with less.prems show ?thesis by simp
  next
    case True
    obtain l0 cs where sl0: "scanLayer n remain = (l0, cs)" by (cases "scanLayer n remain")
    have cs: "cs = filter (\<lambda>i. get0 remain i > 0) [0 ..< n]"
      using scanLayer_contributors[of n remain] sl0 by simp
    show ?thesis
    proof (cases "l0 = None \<or> cs = [] \<or> the l0 \<le> 0")
      case stop: True
      have "buildSidePots_loop ps n remain = []"
        using True sl0 stop by (subst buildSidePots_loop.simps) (auto split: option.splits)
      with less.prems show ?thesis by simp
    next
      case go: False
      then obtain L where sl: "scanLayer n remain = (Some L, cs)" and ne: "cs \<noteq> []" and L: "0 < L"
        using sl0 by (cases l0) auto
      let ?r' = "subtractLayer L cs remain"
      have dec: "posSum ?r' < posSum remain" by (rule posSum_decreases[OF sl ne])
      have step: "buildSidePots_loop ps n remain =
            (if L * int (length cs) > 0
             then [\<lparr>amount = L * int (length cs), eligibleSeats = filter (inHandAt ps) cs\<rparr>] else [])
              @ buildSidePots_loop ps n ?r'"
        using True sl ne L by (subst buildSidePots_loop.simps) (simp add: Let_def)
      from less.prems have "sp = \<lparr>amount = L * int (length cs), eligibleSeats = filter (inHandAt ps) cs\<rparr>
           \<or> sp \<in> set (buildSidePots_loop ps n ?r')"
        unfolding step by (auto split: if_splits)
      then show ?thesis
      proof
        assume "sp = \<lparr>amount = L * int (length cs), eligibleSeats = filter (inHandAt ps) cs\<rparr>"
        then show ?thesis by (simp add: cs)
      next
        assume "sp \<in> set (buildSidePots_loop ps n ?r')"
        then show ?thesis by (rule less.hyps[OF dec])
      qed
    qed
  qed
qed

lemma buildSidePots_distinct:
  "sp \<in> set (buildSidePots s) \<Longrightarrow> distinct (eligibleSeats sp)"
  by (auto simp: buildSidePots_def Let_def dest: buildSidePots_loop_distinct split: if_splits)

lemma resolveShowdown_credit:
  assumes more: "length (contendersOf (players s)) \<noteq> 1" and st: "st < length (players s)"
  shows "stack (players (resolveShowdown s) ! st)
           = stack (players s ! st)
             + sum_list (map (\<lambda>sp. share_spec (amount sp)
                                     (tied_winners_spec
                                        (rankBySeatOf (community s) (players s) (contendersOf (players s)))
                                        (eligibleSeats sp)) st)
                             (buildSidePots s))"
proof -
  let ?r = "rankBySeatOf (community s) (players s) (contendersOf (players s))"
  let ?won = "fold (payPot ?r) (buildSidePots s) []"
  have b: "buildSidePots (resetReveals s) = buildSidePots s"
    by (rule buildSidePots_cong) (simp_all add: resetReveals_def)
  have p: "players (resolveShowdown s) = creditStacks ?won (players s)"
    using more b by (simp add: resolveShowdown_def Let_def resetReveals_def)
  have d: "distinct (map fst ?won)" by (rule payPots_distinct) simp
  have "won_get ?won st
     = won_get [] st
       + sum_list (map (\<lambda>sp. share_spec (amount sp) (tied_winners_spec ?r (eligibleSeats sp)) st)
                       (buildSidePots s))"
    by (rule payPots_share) (simp add: buildSidePots_distinct)
  then show ?thesis
    unfolding p using creditStacks_nth[OF d st] by (simp add: won_get_def)
qed

lemma share_spec_sorted:
  assumes d: "distinct ws" and i: "i < length ws"
  shows "share_spec A ws (sort ws ! i)
           = A div int (length ws) + (if int i < A mod int (length ws) then 1 else 0)"
proof -
  have "sort ws ! i \<in> set (sort ws)" using i by (intro nth_mem) simp
  then have "sort ws ! i \<in> set ws" by simp
  with sorted_index_count[OF d i] show ?thesis by (simp add: share_spec_def)
qed

text \<open>
  Claim C5. In a showdown between several contenders \<open>resolveShowdown\<close> adds to the stack of
  every seat its share of every side pot, and nothing else: the share of a pot of amount \<open>A\<close>
  with the \<open>k\<close> tied winners \<open>ws\<close> (the eligible seats with a ranked hand that no other such
  seat beats) is \<open>floor(A / k)\<close> for a winner, plus one chip for the first \<open>A mod k\<close> winners in
  ascending seat order (the winner at position \<open>i\<close> of the sorted winners gets the extra chip
  when \<open>i < A mod k\<close>), and nothing for any other seat. The split of one pot in the loop is
  \<open>splitPot\<close>, which credits just that. A pot of 100 with the tied winners 2, 5 and 7 gives 33
  to each and the extra chip to seat 2.
\<close>

theorem showdown_remainder_ascending:
  "(length (contendersOf (players s)) \<noteq> 1 \<and> st < length (players s) \<longrightarrow>
      stack (players (resolveShowdown s) ! st)
        = stack (players s ! st)
          + sum_list (map (\<lambda>sp. share_spec (amount sp)
                                  (tied_winners_spec
                                     (rankBySeatOf (community s) (players s) (contendersOf (players s)))
                                     (eligibleSeats sp)) st)
                          (buildSidePots s)))
   \<and> (distinct ws \<longrightarrow>
        (\<forall>i < length ws.
           share_spec A ws (sort ws ! i)
             = A div int (length ws) + (if int i < A mod int (length ws) then 1 else 0))
        \<and> (\<forall>w. w \<notin> set ws \<longrightarrow> share_spec A ws w = 0))
   \<and> (distinct bestSeats \<and> bestSeats \<noteq> [] \<longrightarrow>
        (\<forall>i < length bestSeats.
           won_get (splitPot A bestSeats won) (sort bestSeats ! i)
             = won_get won (sort bestSeats ! i) + A div int (length bestSeats)
               + (if int i < A mod int (length bestSeats) then 1 else 0))
        \<and> (\<forall>w. w \<notin> set bestSeats \<longrightarrow> won_get (splitPot A bestSeats won) w = won_get won w))
   \<and> share_spec 100 [2, 5, 7] 2 = 34 \<and> share_spec 100 [2, 5, 7] 5 = 33
   \<and> share_spec 100 [2, 5, 7] 7 = 33
   \<and> splitPot 100 [2, 5, 7] [] = [(2, 34), (5, 33), (7, 33)]"
proof (intro conjI impI allI)
  assume "length (contendersOf (players s)) \<noteq> 1 \<and> st < length (players s)"
  then show "stack (players (resolveShowdown s) ! st)
        = stack (players s ! st)
          + sum_list (map (\<lambda>sp. share_spec (amount sp)
                                  (tied_winners_spec
                                     (rankBySeatOf (community s) (players s) (contendersOf (players s)))
                                     (eligibleSeats sp)) st)
                          (buildSidePots s))"
    using resolveShowdown_credit by blast
next
  fix i assume "distinct ws" "i < length ws"
  then show "share_spec A ws (sort ws ! i)
             = A div int (length ws) + (if int i < A mod int (length ws) then 1 else 0)"
    by (rule share_spec_sorted)
next
  fix w assume "w \<notin> set ws"
  then show "share_spec A ws w = 0" by (simp add: share_spec_def)
next
  fix i assume "distinct bestSeats \<and> bestSeats \<noteq> []" "i < length bestSeats"
  then show "won_get (splitPot A bestSeats won) (sort bestSeats ! i)
             = won_get won (sort bestSeats ! i) + A div int (length bestSeats)
               + (if int i < A mod int (length bestSeats) then 1 else 0)"
    using splitPot_credit by blast
next
  fix w assume "distinct bestSeats \<and> bestSeats \<noteq> []" "w \<notin> set bestSeats"
  then show "won_get (splitPot A bestSeats won) w = won_get won w"
    using splitPot_others by blast
next
  show "share_spec 100 [2, 5, 7] 2 = 34" "share_spec 100 [2, 5, 7] 5 = 33"
    "share_spec 100 [2, 5, 7] 7 = 33"
    by (simp_all add: share_spec_def)
  show "splitPot 100 [2, 5, 7] [] = [(2, 34), (5, 33), (7, 33)]" by (rule splitPot_example)
qed

text \<open>
  A table of eight at the showdown: seats 2, 5 and 7 are in hand and play the board (a royal
  flush), seat 0 has folded; the four of them have put in 25 each, so that there is one pot
  of 100 with the eligible seats 2, 5 and 7. Every stack is 10 before the payout.
\<close>

definition split_table :: engine where
  "split_table =
     (new_engine ''S'')
       \<lparr>stage := Showdown, pot := 100,
        community := [mk 14 Hearts, mk 13 Hearts, mk 12 Hearts, mk 11 Hearts, mk 10 Hearts],
        players := map (\<lambda>i. \<lparr>player_id = show_nat i, name = show_nat i, stack = 10, seat = i,
                              hole = (if i \<in> {2, 5, 7}
                                      then Some [mk (2 + int i) Clubs, mk (2 + int i) Diamonds]
                                      else None),
                              inHand = (i \<in> {2, 5, 7}), hasActedThisRound = True,
                              isAllIn = False, isOwner = (i = 0)\<rparr>)
                       [0 ..< 8],
        streetBets := [0, 0, 0, 0, 0, 0, 0, 0],
        totalBets := [25, 0, 25, 0, 0, 25, 0, 25]\<rparr>"

lemma split_table_contenders: "contendersOf (players split_table) = [2, 5, 7]"
  by (simp add: split_table_def contendersOf_def upt_rec)

lemma split_table_pots:
  "buildSidePots split_table = [\<lparr>amount = 100, eligibleSeats = [2, 5, 7]\<rparr>]"
  unfolding buildSidePots_def split_table_def
  apply (simp add: Let_def)
  apply (subst buildSidePots_loop.simps)
  apply (simp add: scanLayer_def subtractLayer_def get0_def js_at_def upt_rec Let_def inHandAt_def)
  apply (subst buildSidePots_loop.simps)
  apply simp
  done

lemma split_table_ranks:
  "rankBySeatOf (community split_table) (players split_table) [2, 5, 7]
     = [(2, (8, [Some 14])), (5, (8, [Some 14])), (7, (8, [Some 14]))]"
  by (simp add: split_table_def rankBySeatOf_def rank7_eval)

lemma split_table_winners:
  "tied_winners_spec [(2, (8, [Some 14])), (5, (8, [Some 14])), (7, (8, [Some 14]))] [2, 5, 7]
     = [2, 5, 7]"
  by (simp add: tied_winners_spec_def rank_of_def beats_def tiebreakCmp_def tb_at_def js_at_def)

theorem showdown_remainder_ascending_witness:
  "length (contendersOf (players split_table)) = 3
   \<and> length (players split_table) = 8
   \<and> map stack (players split_table) = [10, 10, 10, 10, 10, 10, 10, 10]
   \<and> buildSidePots split_table = [\<lparr>amount = 100, eligibleSeats = [2, 5, 7]\<rparr>]
   \<and> tied_winners_spec
        (rankBySeatOf (community split_table) (players split_table)
           (contendersOf (players split_table))) [2, 5, 7] = [2, 5, 7]
   \<and> stack (players (resolveShowdown split_table) ! 2) = 44
   \<and> stack (players (resolveShowdown split_table) ! 5) = 43
   \<and> stack (players (resolveShowdown split_table) ! 7) = 43
   \<and> stack (players (resolveShowdown split_table) ! 0) = 10
   \<and> distinct [7, 2, 5 :: nat]
   \<and> share_spec 100 [7, 2, 5] 2 = 34 \<and> share_spec 100 [7, 2, 5] 5 = 33
   \<and> share_spec 100 [7, 2, 5] 7 = 33 \<and> share_spec 100 [7, 2, 5] 3 = 0
   \<and> won_get (splitPot 100 [7, 2, 5] [(5, 10)]) 2 = 34
   \<and> won_get (splitPot 100 [7, 2, 5] [(5, 10)]) 5 = 43
   \<and> won_get (splitPot 100 [7, 2, 5] [(5, 10)]) 7 = 33
   \<and> won_get (splitPot 100 [7, 2, 5] [(5, 10)]) 3 = 0"
proof -
  let ?r = "rankBySeatOf (community split_table) (players split_table)
              (contendersOf (players split_table))"
  have c: "length (contendersOf (players split_table)) = 3" "length (contendersOf (players split_table)) \<noteq> 1"
    by (simp_all add: split_table_contenders)
  have l: "length (players split_table) = 8" by (simp add: split_table_def)
  have m: "map stack (players split_table) = [10, 10, 10, 10, 10, 10, 10, 10]"
    by (simp add: split_table_def upt_rec)
  have sk: "stack (players split_table ! 2) = 10" "stack (players split_table ! 5) = 10"
    "stack (players split_table ! 7) = 10" "stack (players split_table ! 0) = 10"
    by (simp_all add: split_table_def)
  have w: "tied_winners_spec ?r [2, 5, 7] = [2, 5, 7]"
    by (simp only: split_table_contenders split_table_ranks split_table_winners)
  have sh: "share_spec 100 [2, 5, 7] 2 = 34" "share_spec 100 [2, 5, 7] 5 = 33"
    "share_spec 100 [2, 5, 7] 7 = 33" "share_spec 100 [2, 5, 7] 0 = 0"
    by (simp_all add: share_spec_def)
  note t = showdown_remainder_ascending[where s = split_table and ws = "[7, 2, 5]" and A = 100
             and bestSeats = "[7, 2, 5]" and won = "[(5, 10)]"]
  have credit: "stack (players (resolveShowdown split_table) ! k)
                  = stack (players split_table ! k) + share_spec 100 [2, 5, 7] k" if "k < 8" for k
  proof -
    from t[where st = k] c(2) that l
    have "stack (players (resolveShowdown split_table) ! k)
        = stack (players split_table ! k)
          + sum_list (map (\<lambda>sp. share_spec (amount sp) (tied_winners_spec ?r (eligibleSeats sp)) k)
                          (buildSidePots split_table))"
      by simp
    then show ?thesis by (simp add: split_table_pots w)
  qed
  have srt: "sort [7, 2, 5 :: nat] = [2, 5, 7]" by simp
  have d: "distinct [7, 2, 5 :: nat]" by simp
  from t[where st = 0] d
  have a: "\<forall>i < 3. share_spec 100 [7, 2, 5] ([2, 5, 7] ! i)
             = 100 div 3 + (if int i < 100 mod 3 then 1 else 0)"
    and b: "\<forall>w. w \<notin> set [7, 2, 5 :: nat] \<longrightarrow> share_spec 100 [7, 2, 5] w = 0"
    and a': "\<forall>i < 3. won_get (splitPot 100 [7, 2, 5] [(5, 10)]) ([2, 5, 7] ! i)
             = won_get [(5, 10)] ([2, 5, 7] ! i) + 100 div 3 + (if int i < 100 mod 3 then 1 else 0)"
    and b': "\<forall>w. w \<notin> set [7, 2, 5 :: nat] \<longrightarrow> won_get (splitPot 100 [7, 2, 5] [(5, 10)]) w = won_get [(5, 10)] w"
    unfolding srt by simp_all
  from b have s3: "share_spec 100 [7, 2, 5] 3 = 0" by simp
  from b' have w3: "won_get (splitPot 100 [7, 2, 5] [(5, 10)]) 3 = 0" by (simp add: won_get_def)
  from a[rule_format, of 0] a[rule_format, of 1] a[rule_format, of 2]
  have s: "share_spec 100 [7, 2, 5] 2 = 34" "share_spec 100 [7, 2, 5] 5 = 33"
    "share_spec 100 [7, 2, 5] 7 = 33" by simp_all
  from a'[rule_format, of 0] a'[rule_format, of 1] a'[rule_format, of 2]
  have g: "won_get (splitPot 100 [7, 2, 5] [(5, 10)]) 2 = 34"
     "won_get (splitPot 100 [7, 2, 5] [(5, 10)]) 5 = 43"
     "won_get (splitPot 100 [7, 2, 5] [(5, 10)]) 7 = 33"
    by (simp_all add: won_get_def)
  from credit[of 2] credit[of 5] credit[of 7] credit[of 0] sk sh
  have k: "stack (players (resolveShowdown split_table) ! 2) = 44"
    "stack (players (resolveShowdown split_table) ! 5) = 43"
    "stack (players (resolveShowdown split_table) ! 7) = 43"
    "stack (players (resolveShowdown split_table) ! 0) = 10"
    by simp_all
  from c(1) l m split_table_pots w k d s s3 g w3 show ?thesis by simp
qed

section \<open>Chip conservation\<close>

subsection \<open>The showdown of the example hand\<close>














subsection \<open>Where chips leave the table\<close>

text \<open>
  Two ways in which the engine takes chips off the table, which the sequences of calls
  considered below leave out. \<open>startHand\<close> empties the pot: called while a hand is played, it
  discards the chips in it. And \<open>resolveShowdown\<close> credits a side pot to nobody when none of
  its contributors is a contender: in the hand below Ann bets 50 on the flop, Bob and Cy call
  all-in for 28, and Ann folds on the river; the side pot of 22 that only Ann paid into is
  skipped, and 22 of the 160 chips are gone.
\<close>

lemma startHand_discards_pot:
  "stackSum (players hand0) + pot hand0 = 160
   \<and> (case startHand demo_deck hand0 of
         Inl e \<Rightarrow> False
       | Inr s \<Rightarrow> map stack (players s) = [97, 28, 29] \<and> pot s = 3
                  \<and> stackSum (players s) + pot s = 157)"
  by code_simp

definition orphan_calls :: "call list" where
  "orphan_calls =
     [AddPlayer ''a'' ''Ann'' 100 True, AddPlayer ''b'' ''Bob'' 30 False,
      AddPlayer ''c'' ''Cy'' 30 False, StartHand demo_deck,
      PlayerAction ''b'' Call None, PlayerAction ''c'' Call None, PlayerAction ''a'' Check None,
      PlayerAction ''c'' Check None, PlayerAction ''a'' Bet (Some 50), PlayerAction ''b'' Call None,
      PlayerAction ''c'' Call None,
      PlayerAction ''a'' Check None]"

lemma orphan_pot_loses_chips:
  "(case perform_all orphan_calls (0, new_engine ''R'') of
      None \<Rightarrow> False
    | Some (b, s) \<Rightarrow>
       (case playerAction s ''a'' Fold None of
          Inl e \<Rightarrow> False
        | Inr (ok, s') \<Rightarrow>
            b = 160 \<and> stackSum (players s) + pot s = 160 \<and> ok \<and> stage s' = Showdown
            \<and> \<not> settled s' \<and> map stack (players s') = [48, 90, 0] \<and> pot s' = 0
            \<and> pots s' = [\<lparr>amount = 90, eligibleSeats = [1, 2]\<rparr>,
                          \<lparr>amount = 22, eligibleSeats = []\<rparr>]))"
  by code_simp







end
